theory Spec2Isabelle
  imports Main "HOL-Library.Multiset"
begin

section \<open>Values and errors\<close>

text \<open>
  The sort hierarchy of \<^verbatim>\<open>tarski/syntax/sorts.py\<close>. Python values that reach the
  sorts are integers (unbounded), strings, \<^verbatim>\<open>None\<close>, and other objects, which the
  code only ever compares and stores; \<open>ObjV a\<close> is such an object, told apart by a label.
  Python's \<^verbatim>\<open>bool\<close> is a subclass of \<^verbatim>\<open>int\<close> with \<^verbatim>\<open>True == 1\<close>, so a boolean
  is the integer it equals. Floating-point values (the \<^verbatim>\<open>Real\<close> interval and
  \<^verbatim>\<open>float_encode_fn\<close>) are outside this development.

  A value handed to \<^verbatim>\<open>contains\<close>, \<^verbatim>\<open>cast\<close> or \<^verbatim>\<open>extend\<close> either carries a
  \<^verbatim>\<open>.symbol\<close> attribute (a constant of the language) or it does not (a raw value).
\<close>

datatype raw = IntV int | StrV string | NoneV | ObjV string

datatype pyval = Raw raw | Constant raw

text \<open>
  Modelled from the spec: the module of error classes is not part of the sources. Its
  classes \<^verbatim>\<open>SemanticError\<close> and \<^verbatim>\<open>LanguageError\<close> are kinds of their own, neither a
  \<^verbatim>\<open>ValueError\<close>; the others are Python's. \<^verbatim>\<open>SemanticError\<close> is raised at three
  places, each with its own message; the message template is kept, its format arguments
  are not.
\<close>

datatype message = NoBoundsSet | CannotEncode | CastMismatch

datatype error =
    ValueError
  | TypeError
  | AttributeError
  | SemanticError message
  | LanguageError
  | UndefinedSort

text \<open>\<^verbatim>\<open>x.symbol\<close>: an attribute only constants have.\<close>

fun symbol :: "pyval \<Rightarrow> error + raw" where
  "symbol (Constant s) = Inr s"
| "symbol (Raw r) = Inl AttributeError"

section \<open>Sorts and intervals\<close>

text \<open>
  \<^verbatim>\<open>class Sort\<close> and its subclass \<^verbatim>\<open>class Interval(Sort)\<close>. The attribute
  \<^verbatim>\<open>language\<close> is not a field: the language is passed to every operation that reads it.
  Bounds are optional, \<^verbatim>\<open>None\<close> when unset.
\<close>

record sort =
  name :: string
  domain :: "raw set"
  builtin :: bool

record interval = sort +
  lower_bound :: "int option"
  upper_bound :: "int option"
  encode :: "pyval \<Rightarrow> error + int"

datatype sort_object = SortObj sort | IntervalObj interval

fun obj_name :: "sort_object \<Rightarrow> string" where
  "obj_name (SortObj s) = name s"
| "obj_name (IntervalObj i) = name i"

subsection \<open>Sort\<close>

text \<open>
  \<^verbatim>\<open>Sort.contains\<close> and \<^verbatim>\<open>Sort.cast\<close> try \<^verbatim>\<open>x.symbol\<close> first and fall back to
  \<^verbatim>\<open>x\<close> itself on \<^verbatim>\<open>AttributeError\<close>. \<^verbatim>\<open>cast\<close> returns \<^verbatim>\<open>None\<close> when the value is
  not in the domain.
\<close>

fun Sort_contains :: "sort \<Rightarrow> pyval \<Rightarrow> bool" where
  "Sort_contains s (Constant v) = (v \<in> domain s)"
| "Sort_contains s (Raw r) = (r \<in> domain s)"

fun Sort_cast :: "sort \<Rightarrow> pyval \<Rightarrow> raw" where
  "Sort_cast s (Constant v) = (if v \<in> domain s then v else NoneV)"
| "Sort_cast s (Raw r) = (if r \<in> domain s then r else NoneV)"

subsection \<open>Interval\<close>

definition Interval_init ::
  "string \<Rightarrow> (pyval \<Rightarrow> error + int) \<Rightarrow> int option \<Rightarrow> int option \<Rightarrow> interval" where
  "Interval_init nm encode_fn lb ub =
     \<lparr> name = nm, domain = {}, builtin = False,
       lower_bound = lb, upper_bound = ub, encode = encode_fn \<rparr>"

definition is_within_bounds :: "interval \<Rightarrow> int \<Rightarrow> error + bool" where
  "is_within_bounds I x =
     (if lower_bound I = None \<or> upper_bound I = None
      then Inl (SemanticError NoBoundsSet)
      else Inr (the (lower_bound I) \<le> x \<and> x \<le> the (upper_bound I)))"

definition set_bounds :: "interval \<Rightarrow> int option \<Rightarrow> int option \<Rightarrow> interval" where
  "set_bounds I lb ub = I\<lparr> lower_bound := lb, upper_bound := ub \<rparr>"

text \<open>\<^verbatim>\<open>Interval.extend\<close> is \<^verbatim>\<open>pass\<close>: the object comes back as it was.\<close>

definition Interval_extend :: "interval \<Rightarrow> pyval \<Rightarrow> interval" where
  "Interval_extend I x = I"

text \<open>
  \<^verbatim>\<open>getattr(self, x)\<close> on an interval, for a string \<open>x\<close>: the instance attributes set by
  the two constructors, the methods and the property of the two classes, and what every
  instance inherits from \<^verbatim>\<open>object\<close>. \<^verbatim>\<open>Interval\<close> has no docstring, so its
  \<^verbatim>\<open>__doc__\<close> is \<^verbatim>\<open>None\<close>, and so is \<^verbatim>\<open>__weakref__\<close> of an object nothing refers
  to weakly. The list is that of Python 3.11 and later, which have \<^verbatim>\<open>__getstate__\<close>.
  Attributes that a caller adds to an object later are not modelled. The result \<open>None\<close> is
  \<^verbatim>\<open>AttributeError\<close>.
\<close>

definition object_attributes :: "string list" where
  "object_attributes =
     [''language'', ''_domain'', ''encode'',
      ''contains'', ''cast'', ''cardinality'', ''dump'', ''extend'', ''domain'',
      ''is_within_bounds'', ''set_bounds'',
      ''__init__'', ''__str__'', ''__repr__'', ''__deepcopy__'', ''__hash__'', ''__eq__'',
      ''__class__'', ''__delattr__'', ''__dict__'', ''__dir__'', ''__format__'', ''__ge__'',
      ''__getattribute__'', ''__gt__'', ''__init_subclass__'', ''__le__'', ''__lt__'',
      ''__ne__'', ''__new__'', ''__reduce__'', ''__reduce_ex__'', ''__setattr__'',
      ''__sizeof__'', ''__subclasshook__'', ''__getstate__'']"

definition opt_raw :: "int option \<Rightarrow> raw" where
  "opt_raw v = (case v of None \<Rightarrow> NoneV | Some n \<Rightarrow> IntV n)"

definition Interval_getattr :: "interval \<Rightarrow> string \<Rightarrow> raw option" where
  "Interval_getattr I a =
     (if a = ''_name'' \<or> a = ''name'' then Some (StrV (name I))
      else if a = ''builtin'' then Some (IntV (if builtin I then 1 else 0))
      else if a = ''lower_bound'' then Some (opt_raw (lower_bound I))
      else if a = ''upper_bound'' then Some (opt_raw (upper_bound I))
      else if a = ''__doc__'' \<or> a = ''__weakref__'' then Some NoneV
      else if a = ''__module__'' then Some (StrV ''tarski.syntax.sorts'')
      else if a \<in> set object_attributes then Some (ObjV a)
      else None)"

text \<open>
  \<^verbatim>\<open>Interval.cast\<close>: a string that names an attribute returns the attribute; anything
  else is encoded and checked against the bounds.
\<close>

definition Interval_cast :: "interval \<Rightarrow> pyval \<Rightarrow> error + raw" where
  "Interval_cast I x =
     (case (case x of Raw (StrV a) \<Rightarrow> Interval_getattr I a | _ \<Rightarrow> None) of
        Some v \<Rightarrow> Inr v
      | None \<Rightarrow>
          (case encode I x of
             Inl e \<Rightarrow> Inl e
           | Inr y \<Rightarrow>
               (case is_within_bounds I y of
                  Inl e \<Rightarrow> Inl e
                | Inr b \<Rightarrow> if \<not> b then Inl ValueError else Inr (IntV y))))"

text \<open>
  \<^verbatim>\<open>Interval.cardinality\<close> subtracts the bounds with no check; arithmetic on
  \<^verbatim>\<open>None\<close> is a \<^verbatim>\<open>TypeError\<close>.
\<close>

definition Interval_cardinality :: "interval \<Rightarrow> error + int" where
  "Interval_cardinality I =
     (case upper_bound I of
        None \<Rightarrow> Inl TypeError
      | Some u \<Rightarrow> (case lower_bound I of None \<Rightarrow> Inl TypeError | Some l \<Rightarrow> Inr (u - l + 1)))"

subsection \<open>The integer encoder and the builtin intervals\<close>

text \<open>
  \<^verbatim>\<open>int_encode_fn(x) = int(x)\<close>. On a string, \<^verbatim>\<open>int\<close> strips white space (the space
  and the bytes 9 to 13), reads an
  optional sign and then decimal digits, where single underscores may stand between
  digits; anything else is a \<^verbatim>\<open>ValueError\<close>. Characters here are bytes, so only the
  ASCII white space and digits are covered. On \<^verbatim>\<open>None\<close> and on an object with no
  integer conversion, \<^verbatim>\<open>int\<close> raises \<^verbatim>\<open>TypeError\<close>.
\<close>

definition is_space :: "char \<Rightarrow> bool" where
  "is_space c = (let n = (of_char c :: nat) in n = 32 \<or> (9 \<le> n \<and> n \<le> 13))"

definition strip :: "string \<Rightarrow> string" where
  "strip s = rev (dropWhile is_space (rev (dropWhile is_space s)))"

definition digit_val :: "char \<Rightarrow> nat option" where
  "digit_val c = (let n = (of_char c :: nat) in if 48 \<le> n \<and> n \<le> 57 then Some (n - 48) else None)"

fun digits_acc :: "nat \<Rightarrow> string \<Rightarrow> nat option" where
  "digits_acc acc [] = Some acc"
| "digits_acc acc (c # cs) =
     (if c = CHR ''_'' then
        (case cs of
           [] \<Rightarrow> None
         | d # ds \<Rightarrow> (case digit_val d of None \<Rightarrow> None | Some v \<Rightarrow> digits_acc (acc * 10 + v) ds))
      else (case digit_val c of None \<Rightarrow> None | Some v \<Rightarrow> digits_acc (acc * 10 + v) cs))"

definition digitpart :: "string \<Rightarrow> nat option" where
  "digitpart s =
     (case s of
        [] \<Rightarrow> None
      | c # cs \<Rightarrow> (case digit_val c of None \<Rightarrow> None | Some v \<Rightarrow> digits_acc v cs))"

definition int_of_string :: "string \<Rightarrow> int option" where
  "int_of_string s =
     (case strip s of
        [] \<Rightarrow> None
      | c # cs \<Rightarrow>
          if c = CHR ''-'' then map_option (\<lambda>n. - int n) (digitpart cs)
          else if c = CHR ''+'' then map_option int (digitpart cs)
          else map_option int (digitpart (c # cs)))"

text \<open>
  Modelled from the spec: the class of constants is not part of the sources; a value is
  "a wrapped constant exposing a \<^verbatim>\<open>.symbol\<close> field", an object with no integer
  conversion of its own.
\<close>

fun int_encode_fn :: "pyval \<Rightarrow> error + int" where
  "int_encode_fn (Raw (IntV n)) = Inr n"
| "int_encode_fn (Raw (StrV s)) = (case int_of_string s of None \<Rightarrow> Inl ValueError | Some n \<Rightarrow> Inr n)"
| "int_encode_fn (Raw NoneV) = Inl TypeError"
| "int_encode_fn (Raw (ObjV a)) = Inl TypeError"
| "int_encode_fn (Constant s) = Inl TypeError"

definition build_the_naturals :: interval where
  "build_the_naturals =
     (Interval_init ''Natural'' int_encode_fn (Some 0) (Some (2 ^ 32 - 1)))\<lparr> builtin := True \<rparr>"

definition build_the_integers :: interval where
  "build_the_integers =
     (Interval_init ''Integer'' int_encode_fn (Some (- (2 ^ 31 - 1))) (Some (2 ^ 31 - 1)))
       \<lparr> builtin := True \<rparr>"

section \<open>The language and the hierarchy\<close>

text \<open>
  Modelled from the spec: the language that owns the sorts is not part of the sources.
  It holds the edge list \<^verbatim>\<open>sort_hierarchy\<close> of (child name, parent name) pairs and the
  registered sort objects, and \<^verbatim>\<open>get_sort(name)\<close> hands out the object registered under
  a name; asking for a name that is not registered is an error.

  A sort object lives in the language and is mutated in place. The language is therefore
  the store: a reference to a sort is its name (\<^verbatim>\<open>Sort.__eq__\<close> and \<^verbatim>\<open>Sort.__hash__\<close>
  compare by name), and \<open>put_sort\<close> writes an object back to where \<open>get_sort\<close> finds it.
\<close>

record language =
  sort_hierarchy :: "(string \<times> string) list"
  sorts :: "sort_object list"

definition get_sort :: "language \<Rightarrow> string \<Rightarrow> error + sort_object" where
  "get_sort L n =
     (case find (\<lambda>q. obj_name q = n) (sorts L) of
        None \<Rightarrow> Inl UndefinedSort
      | Some q \<Rightarrow> Inr q)"

fun put_first :: "sort_object \<Rightarrow> sort_object list \<Rightarrow> sort_object list" where
  "put_first p [] = []"
| "put_first p (q # qs) = (if obj_name q = obj_name p then p # qs else q # put_first p qs)"

definition put_sort :: "language \<Rightarrow> sort_object \<Rightarrow> language" where
  "put_sort L p = L\<lparr> sorts := put_first p (sorts L) \<rparr>"

text \<open>
  \<^verbatim>\<open>parents(s)\<close> scans the edge list in order and resolves the parent of every edge whose
  child is \<^verbatim>\<open>s.name\<close>.
\<close>

fun parents_loop ::
  "language \<Rightarrow> string \<Rightarrow> (string \<times> string) list \<Rightarrow> sort_object list \<Rightarrow> error + sort_object list"
where
  "parents_loop L n [] ps = Inr ps"
| "parents_loop L n ((lhs, rhs) # es) ps =
     (if lhs = n then
        (case get_sort L rhs of
           Inl e \<Rightarrow> Inl e
         | Inr p \<Rightarrow> parents_loop L n es (ps @ [p]))
      else parents_loop L n es ps)"

definition parents :: "language \<Rightarrow> sort_object \<Rightarrow> error + sort_object list" where
  "parents L s = parents_loop L (obj_name s) (sort_hierarchy L) []"

subsection \<open>Python sets of sorts\<close>

text \<open>
  A Python \<^verbatim>\<open>set\<close> of sort objects is a list without two objects of the same name.
  \<^verbatim>\<open>pop()\<close> removes an element the program does not choose: the element at position
  \<open>i mod length\<close>, where \<open>i\<close> comes from a schedule \<open>nat \<Rightarrow> nat\<close> that gives one number per
  iteration of a loop. Every sequence of choices is some schedule, and the theorems hold
  for all of them.
\<close>

definition pyset_add :: "sort_object \<Rightarrow> sort_object list \<Rightarrow> sort_object list" where
  "pyset_add p xs = (if \<exists>q \<in> set xs. obj_name q = obj_name p then xs else xs @ [p])"

definition pyset_of :: "sort_object list \<Rightarrow> sort_object list" where
  "pyset_of ps = fold pyset_add ps []"

definition pyset_pop :: "nat \<Rightarrow> sort_object list \<Rightarrow> sort_object \<times> sort_object list" where
  "pyset_pop i xs = (let j = i mod length xs in (xs ! j, take j xs @ drop (Suc j) xs))"

subsection \<open>Dynamic dispatch\<close>

fun cast :: "sort_object \<Rightarrow> pyval \<Rightarrow> error + raw" where
  "cast (SortObj s) x = Inr (Sort_cast s x)"
| "cast (IntervalObj i) x = Interval_cast i x"

subsection \<open>inclusion_closure\<close>

text \<open>
  The loop of \<^verbatim>\<open>inclusion_closure\<close>. Nothing keeps a sort that was already visited out
  of the frontier, so the loop need not end: not returning is the value \<open>None\<close>.
\<close>

partial_function (option) closure_loop ::
  "(nat \<Rightarrow> nat) \<Rightarrow> language \<Rightarrow> sort_object list \<Rightarrow> sort_object list
     \<Rightarrow> (error + sort_object list) option"
where
  "closure_loop sched L frontier closure =
     (if length frontier > 0 then
        (case pyset_pop (sched 0) frontier of
           (s, frontier1) \<Rightarrow>
             (case parents L s of
                Inl e \<Rightarrow> Some (Inl e)
              | Inr ps \<Rightarrow>
                  closure_loop (\<lambda>k. sched (Suc k)) L (fold pyset_add ps frontier1)
                    (pyset_add s closure)))
      else Some (Inr closure))"

definition inclusion_closure ::
  "(nat \<Rightarrow> nat) \<Rightarrow> language \<Rightarrow> sort_object \<Rightarrow> (error + sort_object list) option" where
  "inclusion_closure sched L s = closure_loop sched L [s] []"

subsection \<open>Interval.contains\<close>

text \<open>
  The loop over \<^verbatim>\<open>relevant_supers\<close>, followed by the final bounds check. Only a
  \<^verbatim>\<open>ValueError\<close> of the ancestor's \<^verbatim>\<open>cast\<close> is turned into \<^verbatim>\<open>LanguageError\<close>; any other
  exception leaves the loop as it is.
\<close>

partial_function (option) contains_loop ::
  "(nat \<Rightarrow> nat) \<Rightarrow> language \<Rightarrow> interval \<Rightarrow> pyval \<Rightarrow> int \<Rightarrow> bool \<Rightarrow> sort_object list
     \<Rightarrow> (error + bool) option"
where
  "contains_loop sched L I x y raises_exceptions relevant_supers =
     (if length relevant_supers > 0 then
        (case pyset_pop (sched 0) relevant_supers of
           (p, rest) \<Rightarrow>
             (case cast p x of
                Inl e \<Rightarrow> Some (Inl (if e = ValueError then LanguageError else e))
              | Inr z \<Rightarrow>
                  if z \<noteq> NoneV \<and> IntV y \<noteq> z then
                    (if raises_exceptions then Some (Inl (SemanticError CastMismatch))
                     else Some (Inr False))
                  else
                    (case parents L p of
                       Inl e \<Rightarrow> Some (Inl e)
                     | Inr ps \<Rightarrow>
                         contains_loop (\<lambda>k. sched (Suc k)) L I x y raises_exceptions
                           (fold pyset_add ps rest))))
      else Some (is_within_bounds I y))"

definition Interval_contains ::
  "(nat \<Rightarrow> nat) \<Rightarrow> language \<Rightarrow> interval \<Rightarrow> pyval \<Rightarrow> bool \<Rightarrow> (error + bool) option" where
  "Interval_contains sched L I x raises_exceptions =
     (case encode I x of
        Inl e \<Rightarrow>
          if e = ValueError then
            (if raises_exceptions then Some (Inl (SemanticError CannotEncode))
             else Some (Inr False))
          else Some (Inl e)
      | Inr y \<Rightarrow>
          (case parents L (IntervalObj I) of
             Inl e \<Rightarrow> Some (Inl e)
           | Inr ps \<Rightarrow> contains_loop sched L I x y raises_exceptions (pyset_of ps)))"

subsection \<open>extend\<close>

text \<open>
  \<^verbatim>\<open>Sort.extend\<close> adds the symbol to its own domain and calls \<^verbatim>\<open>extend\<close> on every
  parent, which is \<^verbatim>\<open>Sort.extend\<close> again or \<^verbatim>\<open>Interval.extend\<close> by the class of the
  parent. The first argument bounds the depth of the recursion: at depth 0 the call does
  not return (\<open>None\<close>; Python gives up with \<^verbatim>\<open>RecursionError\<close> at its recursion limit).
  \<open>extend_each\<close> is the \<^verbatim>\<open>for\<close> loop over the parents. A sort is passed by its name
  and looked up where it is used, since the calls before may have changed it.
\<close>

fun extend :: "nat \<Rightarrow> language \<Rightarrow> string \<Rightarrow> pyval \<Rightarrow> (error + language) option"
  and extend_each :: "nat \<Rightarrow> language \<Rightarrow> sort_object list \<Rightarrow> pyval \<Rightarrow> (error + language) option"
where
  "extend 0 L n c = None"
| "extend (Suc k) L n c =
     (case get_sort L n of
        Inl e \<Rightarrow> Some (Inl e)
      | Inr (IntervalObj I) \<Rightarrow> Some (Inr (put_sort L (IntervalObj (Interval_extend I c))))
      | Inr (SortObj S) \<Rightarrow>
          (case symbol c of
             Inl e \<Rightarrow> Some (Inl e)
           | Inr v \<Rightarrow>
               (let S1 = S\<lparr> domain := insert v (domain S) \<rparr>;
                    L1 = put_sort L (SortObj S1)
                in case parents L1 (SortObj S1) of
                     Inl e \<Rightarrow> Some (Inl e)
                   | Inr ps \<Rightarrow> extend_each k L1 ps c)))"
| "extend_each k L [] c = Some (Inr L)"
| "extend_each k L (p # ps) c =
     (case extend k L (obj_name p) c of
        None \<Rightarrow> None
      | Some (Inl e) \<Rightarrow> Some (Inl e)
      | Some (Inr L1) \<Rightarrow> extend_each k L1 ps c)"

text \<open>
  \<^verbatim>\<open>A.contains(x)\<close> by the class of \<open>A\<close>; the flag of \<^verbatim>\<open>Interval.contains\<close> has its
  default, false.
\<close>

fun contains :: "(nat \<Rightarrow> nat) \<Rightarrow> language \<Rightarrow> sort_object \<Rightarrow> pyval \<Rightarrow> (error + bool) option" where
  "contains sched L (SortObj s) x = Some (Inr (Sort_contains s x))"
| "contains sched L (IntervalObj i) x = Interval_contains sched L i x False"

section \<open>Notions of the specification\<close>

text \<open>
  The edge set of a language; a language is resolved when every parent named by an edge is
  registered; an object is the registered one when \<open>get_sort\<close> at its name returns it.
\<close>

definition edges :: "language \<Rightarrow> (string \<times> string) set" where
  "edges L = set (sort_hierarchy L)"

definition resolved :: "language \<Rightarrow> bool" where
  "resolved L = (\<forall>e \<in> set (sort_hierarchy L). \<exists>q \<in> set (sorts L). obj_name q = snd e)"

definition registered :: "language \<Rightarrow> sort_object \<Rightarrow> bool" where
  "registered L p = (get_sort L (obj_name p) = Inr p)"

text \<open>The registered objects whose names lie in a set of names.\<close>

definition objs :: "language \<Rightarrow> string set \<Rightarrow> sort_object set" where
  "objs L N = {q. registered L q \<and> obj_name q \<in> N}"

text \<open>
  The ancestors of a sort: the names reachable from it over one or more edges, that is
  by the transitive \<^verbatim>\<open>parents\<close> relation.
\<close>

definition ancestors :: "language \<Rightarrow> string \<Rightarrow> string list" where
  "ancestors L n =
     filter (\<lambda>a. (n, a) \<in> (set (sort_hierarchy L))\<^sup>+) (remdups (map snd (sort_hierarchy L)))"

text \<open>A discrete sort is a registered sort that is not an interval.\<close>

definition is_discrete :: "language \<Rightarrow> string \<Rightarrow> bool" where
  "is_discrete L n = (case get_sort L n of Inr (SortObj S) \<Rightarrow> True | _ \<Rightarrow> False)"

definition discrete_edges :: "language \<Rightarrow> (string \<times> string) set" where
  "discrete_edges L =
     set (filter (\<lambda>(c, p). is_discrete L c \<and> is_discrete L p) (sort_hierarchy L))"

text \<open>
  What one visit of an ancestor decides in \<^verbatim>\<open>Interval.contains\<close>: \<open>None\<close> when the
  traversal goes on, otherwise the result with which \<^verbatim>\<open>contains\<close> ends.
\<close>

definition verdict :: "pyval \<Rightarrow> int \<Rightarrow> bool \<Rightarrow> sort_object \<Rightarrow> (error + bool) option" where
  "verdict x y raises_exceptions p =
     (case cast p x of
        Inl e \<Rightarrow> Some (Inl (if e = ValueError then LanguageError else e))
      | Inr z \<Rightarrow>
          if z \<noteq> NoneV \<and> IntV y \<noteq> z then
            Some (if raises_exceptions then Inl (SemanticError CastMismatch) else Inr False)
          else None)"

text \<open>
  \<open>grows v L L'\<close>: \<open>L'\<close> is \<open>L\<close> with \<open>v\<close> added to the domains of some discrete sorts and
  nothing else changed.
\<close>

definition grow1 :: "raw \<Rightarrow> sort_object \<Rightarrow> sort_object \<Rightarrow> bool" where
  "grow1 v q q' =
     (q' = q \<or> (\<exists>S. q = SortObj S \<and> q' = SortObj (S\<lparr> domain := insert v (domain S) \<rparr>)))"

definition grows :: "raw \<Rightarrow> language \<Rightarrow> language \<Rightarrow> bool" where
  "grows v L L' =
     (sort_hierarchy L' = sort_hierarchy L \<and> list_all2 (grow1 v) (sorts L) (sorts L'))"

text \<open>
  The invariant of the spec on the bounds of an interval: both unset, or both set with the
  lower one not above the upper one.
\<close>

definition valid_bounds :: "int option \<Rightarrow> int option \<Rightarrow> bool" where
  "valid_bounds lb ub =
     (case (lb, ub) of
        (None, None) \<Rightarrow> True
      | (Some l, Some u) \<Rightarrow> l \<le> u
      | _ \<Rightarrow> False)"

definition bounds_invariant :: "interval \<Rightarrow> bool" where
  "bounds_invariant I = valid_bounds (lower_bound I) (upper_bound I)"

text \<open>A string that names an attribute of the interval: \<^verbatim>\<open>cast\<close> returns the attribute.\<close>

definition names_attribute :: "interval \<Rightarrow> pyval \<Rightarrow> bool" where
  "names_attribute I x = (case x of Raw (StrV a) \<Rightarrow> Interval_getattr I a \<noteq> None | _ \<Rightarrow> False)"

text \<open>
  The sort registered under \<open>A\<close> is discrete and has \<open>v\<close> in its domain; and what
  \<^verbatim>\<open>extend\<close> on \<open>n\<close> achieves: every sort reached from a discrete \<open>n\<close> over edges
  between discrete sorts has \<open>v\<close>.
\<close>

definition has :: "raw \<Rightarrow> language \<Rightarrow> string \<Rightarrow> bool" where
  "has v L A = (\<exists>S. get_sort L A = Inr (SortObj S) \<and> v \<in> domain S)"

definition post :: "raw \<Rightarrow> language \<Rightarrow> string \<Rightarrow> language \<Rightarrow> bool" where
  "post v L0 n L' = (is_discrete L0 n \<longrightarrow> (\<forall>A. (n, A) \<in> (discrete_edges L0)\<^sup>* \<longrightarrow> has v L' A))"

text \<open>The \<^verbatim>\<open>cast\<close> of the sort registered under a name.\<close>

definition cast_at :: "language \<Rightarrow> string \<Rightarrow> pyval \<Rightarrow> error + raw" where
  "cast_at L a x = (case get_sort L a of Inl e \<Rightarrow> Inl e | Inr p \<Rightarrow> cast p x)"

text \<open>
  Every edge that leaves \<open>n\<close> or a sort reachable from \<open>n\<close> names a registered sort; and the
  language with only those edges.
\<close>

definition resolved_from :: "language \<Rightarrow> string \<Rightarrow> bool" where
  "resolved_from L n =
     (\<forall>e \<in> set (sort_hierarchy L).
        (n, fst e) \<in> (set (sort_hierarchy L))\<^sup>* \<longrightarrow> (\<exists>q \<in> set (sorts L). obj_name q = snd e))"

definition restrict_to :: "language \<Rightarrow> string \<Rightarrow> language" where
  "restrict_to L n =
     L\<lparr> sort_hierarchy :=
          filter (\<lambda>e. (n, fst e) \<in> (set (sort_hierarchy L))\<^sup>*) (sort_hierarchy L) \<rparr>"

text \<open>
  The ancestors that the traversal of \<^verbatim>\<open>Interval.contains\<close> can reach. An ancestor passes
  when its \<^verbatim>\<open>cast(x)\<close> is \<^verbatim>\<open>None\<close> or \<open>y\<close>; the traversal goes on to the parents of an
  ancestor only if it passes. The visited ancestors are the direct parents and whatever is
  reached from them over edges that leave a passing sort.
\<close>

definition passes :: "language \<Rightarrow> pyval \<Rightarrow> int \<Rightarrow> string \<Rightarrow> bool" where
  "passes L x y a = (cast_at L a x = Inr NoneV \<or> cast_at L a x = Inr (IntV y))"

definition open_edges :: "language \<Rightarrow> pyval \<Rightarrow> int \<Rightarrow> (string \<times> string) list" where
  "open_edges L x y = filter (\<lambda>e. passes L x y (fst e)) (sort_hierarchy L)"

definition visited :: "language \<Rightarrow> interval \<Rightarrow> pyval \<Rightarrow> int \<Rightarrow> string list" where
  "visited L I x y =
     filter (\<lambda>a. \<exists>p \<in> set (map snd (filter (\<lambda>e. fst e = name I) (sort_hierarchy L))).
                   (p, a) \<in> (set (open_edges L x y))\<^sup>*)
       (remdups (map snd (sort_hierarchy L)))"

section \<open>Example languages\<close>

text \<open>The schedule under which \<^verbatim>\<open>pop()\<close> always takes the first element.\<close>

definition pop_first :: "nat \<Rightarrow> nat" where
  "pop_first k = 0"

definition block_sort :: sort where
  "block_sort = \<lparr> name = ''block'', domain = {}, builtin = False \<rparr>"

definition object_sort :: sort where
  "object_sort = \<lparr> name = ''object'', domain = {}, builtin = False \<rparr>"

definition label_sort :: sort where
  "label_sort = \<lparr> name = ''label'', domain = {StrV ''5''}, builtin = False \<rparr>"

definition small_interval :: interval where
  "small_interval = Interval_init ''small'' int_encode_fn (Some 0) (Some 10)"

definition tiny_interval :: interval where
  "tiny_interval = Interval_init ''tiny'' int_encode_fn (Some 0) (Some 3)"

definition open_interval :: interval where
  "open_interval = Interval_init ''open'' int_encode_fn None None"

text \<open>Two discrete sorts, \<open>block\<close> below \<open>object\<close>.\<close>

definition blocks_language :: language where
  "blocks_language =
     \<lparr> sort_hierarchy = [(''block'', ''object'')],
       sorts = [SortObj object_sort, SortObj block_sort] \<rparr>"

text \<open>A discrete sort below an interval below a discrete sort.\<close>

definition mixed_language :: language where
  "mixed_language =
     \<lparr> sort_hierarchy = [(''block'', ''small''), (''small'', ''object'')],
       sorts = [SortObj object_sort, IntervalObj small_interval, SortObj block_sort] \<rparr>"

text \<open>An interval below the builtin integers.\<close>

definition numbers_language :: language where
  "numbers_language =
     \<lparr> sort_hierarchy = [(''small'', ''Integer'')],
       sorts = [IntervalObj build_the_integers, IntervalObj small_interval] \<rparr>"

text \<open>An interval below a narrower interval below a discrete sort of labels.\<close>

definition narrow_language :: language where
  "narrow_language =
     \<lparr> sort_hierarchy = [(''small'', ''tiny''), (''tiny'', ''label'')],
       sorts = [IntervalObj small_interval, IntervalObj tiny_interval, SortObj label_sort] \<rparr>"

text \<open>An interval below an interval whose bounds were never set.\<close>

definition unbounded_language :: language where
  "unbounded_language =
     \<lparr> sort_hierarchy = [(''small'', ''open'')],
       sorts = [IntervalObj small_interval, IntervalObj open_interval] \<rparr>"

text \<open>
  An interval whose encoder reads \<^verbatim>\<open>None\<close> as 0 and is \<^verbatim>\<open>int\<close> otherwise, below the
  builtin integers.
\<close>

fun lenient_encode_fn :: "pyval \<Rightarrow> error + int" where
  "lenient_encode_fn (Raw NoneV) = Inr 0"
| "lenient_encode_fn x = int_encode_fn x"

definition lenient_interval :: interval where
  "lenient_interval = Interval_init ''lenient'' lenient_encode_fn (Some 0) (Some 10)"

definition lenient_language :: language where
  "lenient_language =
     \<lparr> sort_hierarchy = [(''lenient'', ''Integer'')],
       sorts = [IntervalObj build_the_integers, IntervalObj lenient_interval] \<rparr>"

text \<open>\<open>mixed_language\<close> after \<open>block\<close> was extended with the constant \<open>a\<close>.\<close>

definition mixed_language_extended :: language where
  "mixed_language_extended =
     \<lparr> sort_hierarchy = [(''block'', ''small''), (''small'', ''object'')],
       sorts = [SortObj object_sort, IntervalObj small_interval,
                SortObj (block_sort\<lparr> domain := {StrV ''a''} \<rparr>)] \<rparr>"

text \<open>An interval whose encoder maps an integer to its successor.\<close>

fun successor_encode_fn :: "pyval \<Rightarrow> error + int" where
  "successor_encode_fn (Raw (IntV n)) = Inr (n + 1)"
| "successor_encode_fn x = Inl ValueError"

definition shifted_interval :: interval where
  "shifted_interval = Interval_init ''shifted'' successor_encode_fn (Some 0) (Some 10)"

text \<open>The schedule under which \<^verbatim>\<open>pop()\<close> takes the second element when there is one.\<close>

definition pop_second :: "nat \<Rightarrow> nat" where
  "pop_second k = 1"

text \<open>A discrete sort with an edge to a name that is not registered.\<close>

definition dangling_language :: language where
  "dangling_language =
     \<lparr> sort_hierarchy = [(''block'', ''ghost'')], sorts = [SortObj block_sort] \<rparr>"

text \<open>An interval with two direct parents, the labels and a narrower interval.\<close>

definition forked_language :: language where
  "forked_language =
     \<lparr> sort_hierarchy = [(''small'', ''label''), (''small'', ''tiny'')],
       sorts = [IntervalObj small_interval, SortObj label_sort, IntervalObj tiny_interval] \<rparr>"

section \<open>Bounds and cardinality\<close>

text \<open>
  C4. With a bound unset, \<^verbatim>\<open>is_within_bounds\<close> fails on every value with the error of
  its own guard, the \<^verbatim>\<open>SemanticError\<close> whose message says that no bounds are set yet
  (the spec's UnboundedIntervalError). After \<^verbatim>\<open>set_bounds(0, 10)\<close> it answers true on 5
  and false on 11.
\<close>

theorem is_within_bounds_precondition:
  "(lower_bound I = None \<or> upper_bound I = None
      \<longrightarrow> is_within_bounds I x = Inl (SemanticError NoBoundsSet))
   \<and> is_within_bounds (set_bounds I (Some 0) (Some 10)) 5 = Inr True
   \<and> is_within_bounds (set_bounds I (Some 0) (Some 10)) 11 = Inr False"
  by (simp add: is_within_bounds_def set_bounds_def)

theorem is_within_bounds_precondition_witness:
  "(lower_bound (Interval_init ''small'' int_encode_fn None None) = None
      \<or> upper_bound (Interval_init ''small'' int_encode_fn None None) = None)
   \<and> is_within_bounds (Interval_init ''small'' int_encode_fn None None) 5
       = Inl (SemanticError NoBoundsSet)
   \<and> is_within_bounds (set_bounds (Interval_init ''small'' int_encode_fn None None)
        (Some 0) (Some 10)) 5 = Inr True"
  using is_within_bounds_precondition
          [of "Interval_init ''small'' int_encode_fn None None" 5]
  by (simp add: Interval_init_def)

text \<open>
  C7. The Natural interval is built with bounds 0 and 2^32 - 1 and has cardinality 2^32;
  the Integer interval is built with bounds -(2^31 - 1) and 2^31 - 1 and has cardinality
  2^32 - 1.
\<close>

theorem builtin_cardinalities:
  "lower_bound build_the_naturals = Some 0
   \<and> upper_bound build_the_naturals = Some (2 ^ 32 - 1)
   \<and> Interval_cardinality build_the_naturals = Inr (2 ^ 32)
   \<and> lower_bound build_the_integers = Some (- (2 ^ 31 - 1))
   \<and> upper_bound build_the_integers = Some (2 ^ 31 - 1)
   \<and> Interval_cardinality build_the_integers = Inr (2 ^ 32 - 1)"
  by (simp add: build_the_naturals_def build_the_integers_def Interval_init_def
      Interval_cardinality_def)

text \<open>
  C10. \<^verbatim>\<open>cardinality\<close> returns upper_bound - lower_bound + 1 when both bounds are set.
  With a bound unset it returns nothing: the subtraction on \<^verbatim>\<open>None\<close> raises
  \<^verbatim>\<open>TypeError\<close>, which is not the error of the guard of \<^verbatim>\<open>is_within_bounds\<close>.
\<close>

theorem cardinality_needs_bounds:
  "(lower_bound I = Some l \<and> upper_bound I = Some u
      \<longrightarrow> Interval_cardinality I = Inr (u - l + 1))
   \<and> (lower_bound I = None \<or> upper_bound I = None
      \<longrightarrow> Interval_cardinality I = Inl TypeError
          \<and> Interval_cardinality I \<noteq> Inl (SemanticError NoBoundsSet)
          \<and> (\<forall>n. Interval_cardinality I \<noteq> Inr n))"
  by (auto simp: Interval_cardinality_def split: option.splits)

theorem cardinality_needs_bounds_witness:
  "lower_bound (Interval_init ''small'' int_encode_fn (Some 0) (Some 10)) = Some 0
   \<and> upper_bound (Interval_init ''small'' int_encode_fn (Some 0) (Some 10)) = Some 10
   \<and> Interval_cardinality (Interval_init ''small'' int_encode_fn (Some 0) (Some 10)) = Inr 11
   \<and> upper_bound (Interval_init ''open'' int_encode_fn (Some 0) None) = None
   \<and> Interval_cardinality (Interval_init ''open'' int_encode_fn (Some 0) None) = Inl TypeError"
  using cardinality_needs_bounds
          [of "Interval_init ''small'' int_encode_fn (Some 0) (Some 10)" 0 10]
        cardinality_needs_bounds
          [of "Interval_init ''open'' int_encode_fn (Some 0) None" 0 0]
  by (simp add: Interval_init_def)

section \<open>Evaluating the example languages\<close>

lemma acyclic_empty: "acyclic {}"
  by (simp add: acyclic_def)

lemmas graph_eval = acyclic_insert acyclic_empty rtrancl_insert trancl_insert rtrancl_empty

lemmas fixture_defs = blocks_language_def mixed_language_def numbers_language_def
  narrow_language_def unbounded_language_def block_sort_def object_sort_def label_sort_def
  small_interval_def tiny_interval_def open_interval_def build_the_integers_def
  build_the_naturals_def Interval_init_def pop_first_def shifted_interval_def
  mixed_language_extended_def lenient_interval_def lenient_language_def
  dangling_language_def forked_language_def pop_second_def

lemmas int_eval = int_of_string_def strip_def is_space_def digitpart_def digit_val_def

lemmas interval_eval = Interval_cast_def Interval_getattr_def object_attributes_def
  is_within_bounds_def cast_at_def get_sort_def

lemmas visited_eval = visited_def open_edges_def passes_def

lemmas loop_eval = Interval_contains_def contains_loop.simps inclusion_closure_def
  closure_loop.simps pyset_pop_def pyset_add_def pyset_of_def parents_def

section \<open>The hierarchy: parents and the frontier\<close>

lemma get_sort_name: "get_sort L n = Inr p \<Longrightarrow> obj_name p = n \<and> p \<in> set (sorts L)"
  by (auto simp: get_sort_def find_Some_iff split: option.splits)

lemma get_sort_registered: "get_sort L n = Inr p \<Longrightarrow> registered L p"
  using get_sort_name[of L n p] by (simp add: registered_def)

lemma registered_inj: "registered L p \<Longrightarrow> registered L q \<Longrightarrow> obj_name p = obj_name q \<Longrightarrow> p = q"
  by (simp add: registered_def)

lemma get_sort_total: "q \<in> set (sorts L) \<Longrightarrow> \<exists>p. get_sort L (obj_name q) = Inr p"
  by (auto simp: get_sort_def find_None_iff split: option.splits)

lemma resolved_edge: "resolved L \<Longrightarrow> (c, p) \<in> edges L \<Longrightarrow> \<exists>q. get_sort L p = Inr q"
  unfolding resolved_def edges_def using get_sort_total by fastforce

lemma parents_loop_char:
  assumes "resolved L" "set es \<subseteq> edges L"
  shows "\<exists>ps. parents_loop L n es acc = Inr ps
           \<and> set ps = set acc \<union> objs L {p. (n, p) \<in> set es}"
  using assms(2)
proof (induction es arbitrary: acc)
  case Nil
  then show ?case by (simp add: objs_def)
next
  case (Cons e es)
  obtain lhs rhs where e: "e = (lhs, rhs)" by (cases e)
  show ?case
  proof (cases "lhs = n")
    case True
    from Cons.prems e have "(lhs, rhs) \<in> edges L" by simp
    then obtain q where q: "get_sort L rhs = Inr q" using resolved_edge[OF assms(1)] by blast
    have qn: "obj_name q = rhs" "registered L q"
      using get_sort_name[OF q] get_sort_registered[OF q] by simp_all
    from Cons.prems have "set es \<subseteq> edges L" by simp
    from Cons.IH[OF this, of "acc @ [q]"] obtain ps where
      ps: "parents_loop L n es (acc @ [q]) = Inr ps"
          "set ps = set (acc @ [q]) \<union> objs L {p. (n, p) \<in> set es}" by blast
    have "objs L {p. (n, p) \<in> set (e # es)} = insert q (objs L {p. (n, p) \<in> set es})"
      using True e qn q by (auto simp: objs_def registered_def)
    with ps show ?thesis using True e q by simp
  next
    case False
    from Cons.prems have "set es \<subseteq> edges L" by simp
    from Cons.IH[OF this, of acc] show ?thesis using False e by (simp add: objs_def)
  qed
qed

lemma parents_char:
  assumes "resolved L"
  shows "\<exists>ps. parents L s = Inr ps \<and> set ps = objs L (edges L `` {obj_name s})"
proof -
  from parents_loop_char[OF assms, of "sort_hierarchy L" "obj_name s" "[]"]
  obtain ps where "parents_loop L (obj_name s) (sort_hierarchy L) [] = Inr ps"
    "set ps = set [] \<union> objs L {p. (obj_name s, p) \<in> set (sort_hierarchy L)}"
    by (auto simp: edges_def)
  then show ?thesis by (auto simp: parents_def edges_def Image_def)
qed

lemma pyset_pop_mset:
  assumes "xs \<noteq> []" "pyset_pop i xs = (p, rest)"
  shows "mset xs = add_mset p (mset rest)"
proof -
  let ?j = "i mod length xs"
  have j: "?j < length xs" using assms(1) by simp
  have "xs = take ?j xs @ xs ! ?j # drop (Suc ?j) xs" using j by (rule id_take_nth_drop)
  then have "mset xs = add_mset (xs ! ?j) (mset (take ?j xs @ drop (Suc ?j) xs))"
    by (metis mset_append add_mset_add_single mset.simps(2) union_mset_add_mset_right)
  with assms(2) show ?thesis by (auto simp: pyset_pop_def Let_def)
qed

lemma fold_pyset_add:
  "\<exists>ks. fold pyset_add ps xs = xs @ ks \<and> set ks \<subseteq> set ps
        \<and> obj_name ` set (xs @ ks) = obj_name ` (set xs \<union> set ps)"
proof (induction ps arbitrary: xs)
  case Nil
  then show ?case by simp
next
  case (Cons p ps)
  show ?case
  proof (cases "\<exists>q \<in> set xs. obj_name q = obj_name p")
    case True
    then have "pyset_add p xs = xs" by (simp add: pyset_add_def)
    moreover from Cons.IH[of xs] obtain ks where
      "fold pyset_add ps xs = xs @ ks" "set ks \<subseteq> set ps"
      "obj_name ` set (xs @ ks) = obj_name ` (set xs \<union> set ps)" by blast
    moreover have "obj_name p \<in> obj_name ` set xs" using True by (metis imageI)
    ultimately show ?thesis
      by (intro exI[of _ ks]) (auto simp: image_Un)
  next
    case False
    then have a: "pyset_add p xs = xs @ [p]" by (simp add: pyset_add_def)
    from Cons.IH[of "xs @ [p]"] obtain ks where
      "fold pyset_add ps (xs @ [p]) = (xs @ [p]) @ ks" "set ks \<subseteq> set ps"
      "obj_name ` set ((xs @ [p]) @ ks) = obj_name ` (set (xs @ [p]) \<union> set ps)" by blast
    then show ?thesis using a
      by (intro exI[of _ "p # ks"]) (auto simp: image_Un)
  qed
qed

lemma pyset_pop_set:
  assumes "xs \<noteq> []" "pyset_pop i xs = (p, rest)"
  shows "set xs = insert p (set rest)"
  using pyset_pop_mset[OF assms] by (metis set_mset_add_mset_insert set_mset_mset)

lemma wf_frontier:
  assumes "acyclic (edges L)"
  shows "wf (inv_image (mult1 ((edges L)\<inverse>)) (\<lambda>F. mset (map obj_name F)))"
proof -
  have "finite (edges L)" by (simp add: edges_def)
  then have "wf ((edges L)\<inverse>)" using assms by (rule finite_acyclic_wf_converse)
  then show ?thesis by (intro wf_inv_image wf_mult1)
qed

text \<open>One iteration: the frontier after popping \<open>s\<close> and adding its parents.\<close>

lemma frontier_step:
  assumes res: "resolved L" and ne: "F \<noteq> []" and pop: "pyset_pop i F = (s, rest)"
    and reg: "\<forall>p \<in> set F. registered L p"
    and par: "parents L s = Inr ps"
  shows "(fold pyset_add ps rest, F) \<in> inv_image (mult1 ((edges L)\<inverse>)) (\<lambda>F. mset (map obj_name F))"
    and "set (fold pyset_add ps rest) = set rest \<union> objs L (edges L `` {obj_name s})"
    and "\<forall>p \<in> set (fold pyset_add ps rest). registered L p"
proof -
  from parents_char[OF res, of s] par
  have ps: "set ps = objs L (edges L `` {obj_name s})" by simp
  obtain ks where ks: "fold pyset_add ps rest = rest @ ks" "set ks \<subseteq> set ps"
    "obj_name ` set (rest @ ks) = obj_name ` (set rest \<union> set ps)"
    using fold_pyset_add[of ps rest] by blast
  have F: "mset F = add_mset s (mset rest)" using pyset_pop_mset[OF ne pop] .
  have setF: "set F = insert s (set rest)" using pyset_pop_set[OF ne pop] .
  have "mset (map obj_name F) = add_mset (obj_name s) (mset (map obj_name rest))"
    using F by (metis image_mset_add_mset mset_map)
  moreover have "mset (map obj_name (rest @ ks)) = mset (map obj_name rest) + mset (map obj_name ks)"
    by simp
  moreover have "\<forall>b. b \<in># mset (map obj_name ks) \<longrightarrow> (b, obj_name s) \<in> (edges L)\<inverse>"
    using ks(2) ps by (auto simp: objs_def)
  ultimately show "(fold pyset_add ps rest, F) \<in> inv_image (mult1 ((edges L)\<inverse>)) (\<lambda>F. mset (map obj_name F))"
    unfolding inv_image_def mult1_def ks(1) by blast
  have regps: "\<forall>p \<in> set ps. registered L p" using ps by (simp add: objs_def)
  have regrest: "\<forall>p \<in> set rest. registered L p" using reg setF by simp
  show reg': "\<forall>p \<in> set (fold pyset_add ps rest). registered L p"
    using ks(1,2) regps regrest by auto
  have "set ps \<subseteq> set (rest @ ks)"
  proof
    fix p assume p: "p \<in> set ps"
    then have "obj_name p \<in> obj_name ` set (rest @ ks)" using ks(3) by blast
    then obtain q where q: "q \<in> set (rest @ ks)" "obj_name q = obj_name p"
      by (metis (no_types) imageE)
    have "registered L q" using q(1) reg' ks(1) by simp
    with p regps q(2) have "q = p" using registered_inj by blast
    with q(1) show "p \<in> set (rest @ ks)" by simp
  qed
  with ks(1,2) ps show "set (fold pyset_add ps rest) = set rest \<union> objs L (edges L `` {obj_name s})"
    by auto
qed

lemma pyset_add_set:
  assumes "registered L s" "\<forall>p \<in> set C. registered L p"
  shows "set (pyset_add s C) = insert s (set C)"
proof (cases "\<exists>q \<in> set C. obj_name q = obj_name s")
  case True
  then obtain q where q: "q \<in> set C" "obj_name q = obj_name s" by blast
  with assms have "q = s" using registered_inj by blast
  with q(1) True show ?thesis by (auto simp: pyset_add_def)
next
  case False
  then show ?thesis by (auto simp: pyset_add_def)
qed

lemma objs_Un: "objs L (A \<union> B) = objs L A \<union> objs L B"
  by (auto simp: objs_def)

lemma objs_name:
  "registered L s \<Longrightarrow> objs L {obj_name s} = {s}"
  by (auto simp: objs_def dest: registered_inj)

lemma objs_image_names:
  "resolved L \<Longrightarrow> obj_name ` objs L (edges L `` N) = edges L `` N"
proof (intro equalityI subsetI)
  fix a assume "a \<in> obj_name ` objs L (edges L `` N)"
  then show "a \<in> edges L `` N" by (auto simp: objs_def)
next
  fix a assume r: "resolved L" and a: "a \<in> edges L `` N"
  then obtain c where "(c, a) \<in> edges L" by blast
  from resolved_edge[OF r this] obtain q where q: "get_sort L a = Inr q" by blast
  then have "registered L q" "obj_name q = a"
    using get_sort_registered get_sort_name by blast+
  with a show "a \<in> obj_name ` objs L (edges L `` N)" by (force simp: objs_def)
qed

text \<open>Everything reachable from a set of names, by one step of expansion.\<close>

lemma reach_step:
  "(E\<^sup>* `` insert a A) = insert a (E\<^sup>* `` (A \<union> E `` {a}))"
proof (intro equalityI subsetI)
  fix x assume "x \<in> E\<^sup>* `` insert a A"
  then consider "(a, x) \<in> E\<^sup>*" | "x \<in> E\<^sup>* `` A" by blast
  then show "x \<in> insert a (E\<^sup>* `` (A \<union> E `` {a}))"
  proof cases
    case 1
    then show ?thesis by (cases rule: converse_rtranclE) blast+
  next
    case 2
    then show ?thesis by blast
  qed
next
  fix x assume "x \<in> insert a (E\<^sup>* `` (A \<union> E `` {a}))"
  then consider "x = a" | "x \<in> E\<^sup>* `` A" | "x \<in> E\<^sup>* `` (E `` {a})" by blast
  then show "x \<in> E\<^sup>* `` insert a A"
  proof cases
    case 3
    then obtain b where "(a, b) \<in> E" "(b, x) \<in> E\<^sup>*" by blast
    then have "(a, x) \<in> E\<^sup>*" by (rule converse_rtrancl_into_rtrancl)
    then show ?thesis by blast
  qed blast+
qed

lemma objs_reach_step:
  assumes res: "resolved L" and ne: "F \<noteq> []" and pop: "pyset_pop i F = (s, rest)"
    and reg: "\<forall>p \<in> set F. registered L p"
    and par: "parents L s = Inr ps"
  shows "objs L ((edges L)\<^sup>* `` (obj_name ` set F))
         = insert s (objs L ((edges L)\<^sup>* `` (obj_name ` set (fold pyset_add ps rest))))"
proof -
  have setF: "set F = insert s (set rest)" using pyset_pop_set[OF ne pop] .
  then have s: "registered L s" using reg by simp
  have "obj_name ` set (fold pyset_add ps rest) = obj_name ` set rest \<union> edges L `` {obj_name s}"
    using frontier_step(2)[OF res ne pop reg par] objs_image_names[OF res, of "{obj_name s}"]
    by (simp add: image_Un)
  moreover have "obj_name ` set F = insert (obj_name s) (obj_name ` set rest)"
    using setF by simp
  ultimately have "(edges L)\<^sup>* `` (obj_name ` set F)
      = insert (obj_name s) ((edges L)\<^sup>* `` (obj_name ` set (fold pyset_add ps rest)))"
    using reach_step[of "edges L" "obj_name s" "obj_name ` set rest"] by simp
  then show ?thesis using objs_Un[of L "{obj_name s}"] objs_name[OF s] by simp
qed

lemma pyset_add_distinct:
  "distinct (map obj_name C) \<Longrightarrow> distinct (map obj_name (pyset_add s C))"
  by (auto simp: pyset_add_def)

lemma closure_loop_total:
  assumes acyc: "acyclic (edges L)" and res: "resolved L"
  shows "\<forall>p \<in> set F. registered L p \<Longrightarrow> \<forall>p \<in> set C0. registered L p \<Longrightarrow>
     distinct (map obj_name C0) \<Longrightarrow>
     \<exists>C. closure_loop sched L F C0 = Some (Inr C) \<and> distinct (map obj_name C)
        \<and> set C = set C0 \<union> objs L ((edges L)\<^sup>* `` (obj_name ` set F))"
  using wf_frontier[OF acyc]
proof (induction F arbitrary: C0 sched rule: wf_induct_rule)
  case (less F)
  show ?case
  proof (cases "F = []")
    case True
    then show ?thesis using less.prems(3) by (subst closure_loop.simps) (simp add: objs_def)
  next
    case False
    obtain s rest where pop: "pyset_pop (sched 0) F = (s, rest)" by (cases "pyset_pop (sched 0) F")
    obtain ps where par: "parents L s = Inr ps" using parents_char[OF res] by blast
    note st = frontier_step[OF res False pop less.prems(1) par]
    have s: "registered L s" using pyset_pop_set[OF False pop] less.prems(1) by simp
    have C1: "set (pyset_add s C0) = insert s (set C0)"
      using pyset_add_set[OF s less.prems(2)] .
    then have regC: "\<forall>p \<in> set (pyset_add s C0). registered L p" using s less.prems(2) by simp
    from less.IH[OF st(1) st(3) regC pyset_add_distinct[OF less.prems(3)], of "\<lambda>k. sched (Suc k)"]
    obtain C where
      C: "closure_loop (\<lambda>k. sched (Suc k)) L (fold pyset_add ps rest) (pyset_add s C0) = Some (Inr C)"
         "set C = set (pyset_add s C0) \<union> objs L ((edges L)\<^sup>* `` (obj_name ` set (fold pyset_add ps rest)))"
         "distinct (map obj_name C)"
      by blast
    have "closure_loop sched L F C0 = Some (Inr C)"
      using False pop par C(1) by (subst closure_loop.simps) simp
    moreover have "set C = set C0 \<union> objs L ((edges L)\<^sup>* `` (obj_name ` set F))"
      using C(2) C1 objs_reach_step[OF res False pop less.prems(1) par] by simp
    ultimately show ?thesis using C(3) by blast
  qed
qed

lemma fold_pyset_add_set:
  assumes "\<forall>p \<in> set xs \<union> set ps. registered L p"
  shows "set (fold pyset_add ps xs) = set xs \<union> set ps"
proof -
  obtain ks where ks: "fold pyset_add ps xs = xs @ ks" "set ks \<subseteq> set ps"
    "obj_name ` set (xs @ ks) = obj_name ` (set xs \<union> set ps)"
    using fold_pyset_add[of ps xs] by blast
  have "set ps \<subseteq> set (xs @ ks)"
  proof
    fix p assume p: "p \<in> set ps"
    then have "obj_name p \<in> obj_name ` set (xs @ ks)" using ks(3) by blast
    then obtain q where q: "q \<in> set (xs @ ks)" "obj_name q = obj_name p"
      by (metis (no_types) imageE)
    have "registered L q" using q(1) ks(2) assms by auto
    with p assms q(2) have "q = p" using registered_inj by blast
    with q(1) show "p \<in> set (xs @ ks)" by simp
  qed
  with ks(1,2) show ?thesis by auto
qed

lemma reach_parents: "E\<^sup>* `` (E `` {n}) = E\<^sup>+ `` {n}"
proof -
  have "E\<^sup>+ = E O E\<^sup>*" by (rule trancl_unfold_left)
  then show ?thesis by (simp add: relcomp_Image)
qed

lemma ancestors_set: "set (ancestors L n) = (edges L)\<^sup>+ `` {n}"
proof -
  have "\<And>a. (n, a) \<in> (edges L)\<^sup>+ \<Longrightarrow> a \<in> snd ` edges L"
    by (metis Range.intros Range_snd trancl_range)
  then show ?thesis by (auto simp: ancestors_def edges_def)
qed

lemma objs_ancestors:
  "q \<in> objs L ((edges L)\<^sup>+ `` {n}) \<longleftrightarrow> (\<exists>a \<in> set (ancestors L n). get_sort L a = Inr q)"
  unfolding ancestors_set objs_def registered_def
  using get_sort_name[of L _ q] by auto

text \<open>
  The closure needs only the edges that can be reached: the loop runs the same on the
  language restricted to them.
\<close>

lemma restrict_edges: "edges (restrict_to L n) = {e \<in> edges L. (n, fst e) \<in> (edges L)\<^sup>*}"
  by (auto simp: restrict_to_def edges_def)

lemma restrict_get_sort: "get_sort (restrict_to L n) = get_sort L"
  by (rule ext) (simp add: restrict_to_def get_sort_def)

lemma restrict_registered: "registered (restrict_to L n) = registered L"
  by (rule ext) (simp add: registered_def restrict_get_sort)

lemma restrict_objs: "objs (restrict_to L n) N = objs L N"
  by (simp add: objs_def restrict_registered)

lemma restrict_acyclic: "acyclic (edges L) \<Longrightarrow> acyclic (edges (restrict_to L n))"
  by (rule acyclic_subset) (auto simp: restrict_edges)

lemma restrict_resolved: "resolved_from L n \<Longrightarrow> resolved (restrict_to L n)"
  by (auto simp: resolved_from_def resolved_def restrict_to_def)

lemma restrict_reach:
  assumes "(n, a) \<in> (edges L)\<^sup>*"
  shows "(edges (restrict_to L n))\<^sup>* `` {a} = (edges L)\<^sup>* `` {a}"
proof (intro equalityI subsetI)
  fix b assume "b \<in> (edges (restrict_to L n))\<^sup>* `` {a}"
  then have "(a, b) \<in> (edges (restrict_to L n))\<^sup>*" by simp
  moreover have "edges (restrict_to L n) \<subseteq> edges L" by (auto simp: restrict_edges)
  ultimately have "(a, b) \<in> (edges L)\<^sup>*" using rtrancl_mono by blast
  then show "b \<in> (edges L)\<^sup>* `` {a}" by simp
next
  fix b assume "b \<in> (edges L)\<^sup>* `` {a}"
  then have "(a, b) \<in> (edges L)\<^sup>*" by simp
  then have "(a, b) \<in> (edges (restrict_to L n))\<^sup>* \<and> (n, b) \<in> (edges L)\<^sup>*"
  proof (induction rule: rtrancl_induct)
    case base
    then show ?case using assms by simp
  next
    case (step c d)
    then have "(c, d) \<in> edges (restrict_to L n)" by (simp add: restrict_edges)
    with step show ?case by (meson rtrancl.rtrancl_into_rtrancl)
  qed
  then show "b \<in> (edges (restrict_to L n))\<^sup>* `` {a}" by simp
qed

lemma restrict_step:
  assumes "(n, a) \<in> (edges L)\<^sup>*"
  shows "edges (restrict_to L n) `` {a} = edges L `` {a}"
  using assms by (auto simp: restrict_edges)

lemma parents_loop_filter:
  "parents_loop L n (filter (\<lambda>e. P (fst e)) es) acc = (if P n then parents_loop L n es acc else Inr acc)"
  by (induction es arbitrary: acc) (auto split: sum.splits)

lemma restrict_parents:
  assumes "(n, obj_name s) \<in> (edges L)\<^sup>*"
  shows "parents (restrict_to L n) s = parents L s"
proof -
  have "parents (restrict_to L n) s
      = parents_loop (restrict_to L n) (obj_name s)
          (filter (\<lambda>e. (n, fst e) \<in> (set (sort_hierarchy L))\<^sup>*) (sort_hierarchy L)) []"
    by (simp add: parents_def restrict_to_def)
  also have "\<dots> = parents_loop (restrict_to L n) (obj_name s) (sort_hierarchy L) []"
    using assms parents_loop_filter[of "restrict_to L n" "obj_name s"
        "\<lambda>c. (n, c) \<in> (set (sort_hierarchy L))\<^sup>*" "sort_hierarchy L" "[]"]
    by (simp add: edges_def)
  also have "\<dots> = parents_loop L (obj_name s) (sort_hierarchy L) []"
  proof -
    have "\<And>es acc. parents_loop (restrict_to L n) (obj_name s) es acc = parents_loop L (obj_name s) es acc"
    proof -
      fix es acc show "parents_loop (restrict_to L n) (obj_name s) es acc = parents_loop L (obj_name s) es acc"
        by (induction es arbitrary: acc) (auto simp: restrict_get_sort split: sum.splits)
    qed
    then show ?thesis by simp
  qed
  finally show ?thesis by (simp add: parents_def)
qed

lemma parents_loop_names:
  "parents_loop L n es acc = Inr ps \<Longrightarrow>
   map obj_name ps = map obj_name acc @ map snd (filter (\<lambda>e. fst e = n) es)"
proof (induction es arbitrary: acc)
  case Nil
  then show ?case by simp
next
  case (Cons e es)
  obtain lhs rhs where e: "e = (lhs, rhs)" by (cases e)
  show ?case
  proof (cases "lhs = n")
    case True
    with Cons.prems e obtain q where q: "get_sort L rhs = Inr q"
      "parents_loop L n es (acc @ [q]) = Inr ps"
      by (auto split: sum.splits)
    have "obj_name q = rhs" using get_sort_name[OF q(1)] by simp
    with Cons.IH[OF q(2)] True e show ?thesis by simp
  next
    case False
    with Cons.prems e have "parents_loop L n es acc = Inr ps" by simp
    from Cons.IH[OF this] False e show ?thesis by simp
  qed
qed

lemma parents_names:
  "parents L s = Inr ps \<Longrightarrow>
   map obj_name ps = map snd (filter (\<lambda>e. fst e = obj_name s) (sort_hierarchy L))"
  using parents_loop_names[of L "obj_name s" "sort_hierarchy L" "[]" ps] by (simp add: parents_def)

lemma resolved_from_mono:
  assumes "resolved_from L n" "(n, m) \<in> (edges L)\<^sup>*"
  shows "resolved_from L m"
  unfolding resolved_from_def
proof (intro ballI impI)
  fix e assume e: "e \<in> set (sort_hierarchy L)" "(m, fst e) \<in> (set (sort_hierarchy L))\<^sup>*"
  with assms(2) have "(n, fst e) \<in> (set (sort_hierarchy L))\<^sup>*" by (simp add: edges_def)
  with assms(1) e(1) show "\<exists>q \<in> set (sorts L). obj_name q = snd e"
    by (simp add: resolved_from_def)
qed

lemma closure_loop_restrict:
  assumes acyc: "acyclic (edges L)" and res: "resolved_from L n"
  shows "\<forall>p \<in> set F. registered L p \<and> (n, obj_name p) \<in> (edges L)\<^sup>* \<Longrightarrow>
     closure_loop sched L F C0 = closure_loop sched (restrict_to L n) F C0"
  using wf_frontier[OF restrict_acyclic[OF acyc, of n]]
proof (induction F arbitrary: C0 sched rule: wf_induct_rule)
  case (less F)
  let ?R = "restrict_to L n"
  have resR: "resolved ?R" using restrict_resolved[OF res] .
  show ?case
  proof (cases "F = []")
    case True
    then show ?thesis
      by (simp add: closure_loop.simps[of sched L] closure_loop.simps[of sched ?R])
  next
    case False
    obtain s rest where pop: "pyset_pop (sched 0) F = (s, rest)" by (cases "pyset_pop (sched 0) F")
    have sF: "set F = insert s (set rest)" using pyset_pop_set[OF False pop] .
    then have s: "(n, obj_name s) \<in> (edges L)\<^sup>*" using less.prems by simp
    obtain ps where parR: "parents ?R s = Inr ps" using parents_char[OF resR] by blast
    then have parL: "parents L s = Inr ps" using restrict_parents[OF s] by simp
    have regR: "\<forall>p \<in> set F. registered ?R p" using less.prems by (simp add: restrict_registered)
    note st = frontier_step[OF resR False pop regR parR]
    have "\<forall>p \<in> set (fold pyset_add ps rest). registered L p \<and> (n, obj_name p) \<in> (edges L)\<^sup>*"
    proof
      fix p assume "p \<in> set (fold pyset_add ps rest)"
      with st(2) consider "p \<in> set rest" | "p \<in> objs ?R (edges ?R `` {obj_name s})" by blast
      then show "registered L p \<and> (n, obj_name p) \<in> (edges L)\<^sup>*"
      proof cases
        case 1
        then show ?thesis using less.prems sF by simp
      next
        case 2
        then have "registered L p" "(obj_name s, obj_name p) \<in> edges L"
          by (auto simp: objs_def restrict_registered restrict_edges)
        with s show ?thesis by (meson rtrancl.rtrancl_into_rtrancl)
      qed
    qed
    from less.IH[OF st(1) this, of "\<lambda>k. sched (Suc k)" "pyset_add s C0"]
    have "closure_loop (\<lambda>k. sched (Suc k)) L (fold pyset_add ps rest) (pyset_add s C0)
        = closure_loop (\<lambda>k. sched (Suc k)) ?R (fold pyset_add ps rest) (pyset_add s C0)" .
    moreover have "closure_loop sched L F C0
        = closure_loop (\<lambda>k. sched (Suc k)) L (fold pyset_add ps rest) (pyset_add s C0)"
      using False pop parL by (subst closure_loop.simps) simp
    moreover have "closure_loop sched ?R F C0
        = closure_loop (\<lambda>k. sched (Suc k)) ?R (fold pyset_add ps rest) (pyset_add s C0)"
      using False pop parR by (subst closure_loop.simps) simp
    ultimately show ?thesis by simp
  qed
qed

lemma inclusion_closure_reach:
  assumes acyc: "acyclic (edges L)" and res: "resolved_from L (obj_name P)" and reg: "registered L P"
  shows "\<exists>C. inclusion_closure sc L P = Some (Inr C) \<and> distinct (map obj_name C)
          \<and> set C = objs L ((edges L)\<^sup>* `` {obj_name P})"
proof -
  let ?R = "restrict_to L (obj_name P)"
  have "inclusion_closure sc L P = inclusion_closure sc ?R P"
    using closure_loop_restrict[OF acyc res, of "[P]" sc "[]"] reg
    by (simp add: inclusion_closure_def)
  moreover have "\<exists>C. inclusion_closure sc ?R P = Some (Inr C) \<and> distinct (map obj_name C)
          \<and> set C = objs ?R ((edges ?R)\<^sup>* `` {obj_name P})"
    using closure_loop_total[OF restrict_acyclic[OF acyc] restrict_resolved[OF res], of "[P]" "[]" sc]
      reg by (simp add: inclusion_closure_def restrict_registered)
  moreover have "(edges ?R)\<^sup>* `` {obj_name P} = (edges L)\<^sup>* `` {obj_name P}"
    by (rule restrict_reach) simp
  ultimately show ?thesis by (simp add: restrict_objs)
qed

text \<open>
  C5 (amended). In a language whose edge set is acyclic, let \<open>S\<close> be a registered sort
  such that every edge leaving \<open>S\<close> or a sort reachable from \<open>S\<close> names a registered sort.
  Then, for every order in which the frontier is popped, \<^verbatim>\<open>inclusion_closure(S)\<close>
  returns; what it returns is a set (no sort twice) that is finite, contains \<open>S\<close>, consists
  of exactly the registered sorts reachable from \<open>S\<close> over the edges, and is \<open>S\<close> together
  with the closures of the direct parents of \<open>S\<close>, which \<^verbatim>\<open>parents(S)\<close> returns as the
  registered sorts that the edge list names, in its order.
\<close>

theorem inclusion_closure_wellformed:
  assumes acyc: "acyclic (edges L)" and res: "resolved_from L (obj_name S)"
    and reg: "registered L S"
  shows "\<exists>C ps. inclusion_closure sched L S = Some (Inr C)
           \<and> distinct (map obj_name C) \<and> finite (set C) \<and> S \<in> set C
           \<and> set C = objs L ((edges L)\<^sup>* `` {obj_name S})
           \<and> parents L S = Inr ps
           \<and> map obj_name ps = map snd (filter (\<lambda>e. fst e = obj_name S) (sort_hierarchy L))
           \<and> (\<forall>P \<in> set ps. registered L P)
           \<and> (\<forall>P \<in> set ps. \<exists>CP. inclusion_closure sched' L P = Some (Inr CP))
           \<and> set C = insert S (\<Union>P \<in> set ps.
                {q. \<exists>CP. inclusion_closure sched' L P = Some (Inr CP) \<and> q \<in> set CP})"
proof -
  let ?E = "edges L"
  let ?R = "restrict_to L (obj_name S)"
  from inclusion_closure_reach[OF acyc res reg, of sched] obtain C where
    C: "inclusion_closure sched L S = Some (Inr C)" "set C = objs L (?E\<^sup>* `` {obj_name S})"
       "distinct (map obj_name C)"
    by blast
  obtain ps where psR: "parents ?R S = Inr ps" "set ps = objs ?R (edges ?R `` {obj_name S})"
    using parents_char[OF restrict_resolved[OF res]] by blast
  have ps: "parents L S = Inr ps" "set ps = objs L (?E `` {obj_name S})"
    using psR restrict_parents[where n="obj_name S" and s=S and L=L] restrict_step[where n="obj_name S" and a="obj_name S" and L=L]
    by (simp_all add: restrict_objs)
  have names: "obj_name ` set ps = ?E `` {obj_name S}"
    using psR(2) objs_image_names[OF restrict_resolved[OF res], of "{obj_name S}"]
      restrict_step[where n="obj_name S" and a="obj_name S" and L=L] by simp
  have regps: "\<forall>P \<in> set ps. registered L P" using ps(2) by (simp add: objs_def)
  have one: "\<And>P. P \<in> set ps \<Longrightarrow>
     \<exists>CP. inclusion_closure sched' L P = Some (Inr CP) \<and> set CP = objs L (?E\<^sup>* `` {obj_name P})"
  proof -
    fix P assume P: "P \<in> set ps"
    then have "(obj_name S, obj_name P) \<in> ?E\<^sup>*" using ps(2) by (auto simp: objs_def)
    from inclusion_closure_reach[OF acyc resolved_from_mono[OF res this], of sched'] regps P
    show "\<exists>CP. inclusion_closure sched' L P = Some (Inr CP) \<and> set CP = objs L (?E\<^sup>* `` {obj_name P})"
      by blast
  qed
  then have each: "\<forall>P \<in> set ps. \<exists>CP. inclusion_closure sched' L P = Some (Inr CP)" by blast
  have S: "S \<in> set C" using C(2) reg by (auto simp: objs_def)
  have "?E\<^sup>* `` {obj_name S} = insert (obj_name S) (?E\<^sup>* `` (?E `` {obj_name S}))"
    using reach_step[of ?E "obj_name S" "{}"] by simp
  then have "set C = insert S (objs L (?E\<^sup>* `` (obj_name ` set ps)))"
    using C(2) names objs_Un[of L "{obj_name S}"] objs_name[OF reg] by simp
  also have "objs L (?E\<^sup>* `` (obj_name ` set ps))
      = (\<Union>P \<in> set ps. {q. \<exists>CP. inclusion_closure sched' L P = Some (Inr CP) \<and> q \<in> set CP})"
    (is "?lhs = ?rhs")
  proof (intro equalityI subsetI)
    fix q assume "q \<in> ?lhs"
    then obtain P where P: "P \<in> set ps" "q \<in> objs L (?E\<^sup>* `` {obj_name P})"
      by (auto simp: objs_def)
    from one[OF P(1)] obtain CP where
      "inclusion_closure sched' L P = Some (Inr CP)" "set CP = objs L (?E\<^sup>* `` {obj_name P})"
      by blast
    with P show "q \<in> ?rhs" by blast
  next
    fix q assume "q \<in> ?rhs"
    then obtain P CP where P: "P \<in> set ps" "inclusion_closure sched' L P = Some (Inr CP)" "q \<in> set CP"
      by blast
    from one[OF P(1)] P(2) have "set CP = objs L (?E\<^sup>* `` {obj_name P})" by auto
    with P show "q \<in> ?lhs" by (auto simp: objs_def)
  qed
  finally show ?thesis using C ps(1) parents_names[OF ps(1)] S each regps by blast
qed

theorem inclusion_closure_wellformed_witness:
  "acyclic (edges blocks_language) \<and> resolved_from blocks_language ''block''
   \<and> registered blocks_language (SortObj block_sort)
   \<and> inclusion_closure pop_first blocks_language (SortObj block_sort)
       = Some (Inr [SortObj block_sort, SortObj object_sort])
   \<and> parents blocks_language (SortObj block_sort) = Inr [SortObj object_sort]
   \<and> inclusion_closure pop_first blocks_language (SortObj object_sort)
       = Some (Inr [SortObj object_sort])
   \<and> (\<exists>C ps. inclusion_closure pop_first blocks_language (SortObj block_sort) = Some (Inr C)
         \<and> distinct (map obj_name C) \<and> finite (set C) \<and> SortObj block_sort \<in> set C
         \<and> set C = objs blocks_language ((edges blocks_language)\<^sup>* `` {''block''})
         \<and> parents blocks_language (SortObj block_sort) = Inr ps
         \<and> map obj_name ps = [''object'']
         \<and> (\<forall>P \<in> set ps. registered blocks_language P)
         \<and> (\<forall>P \<in> set ps. \<exists>CP. inclusion_closure pop_first blocks_language P = Some (Inr CP))
         \<and> set C = insert (SortObj block_sort) (\<Union>P \<in> set ps.
              {q. \<exists>CP. inclusion_closure pop_first blocks_language P = Some (Inr CP) \<and> q \<in> set CP}))"
proof -
  have a: "acyclic (edges blocks_language)"
    by (simp add: edges_def fixture_defs graph_eval)
  have r: "resolved_from blocks_language (obj_name (SortObj block_sort))"
    by (simp add: resolved_from_def fixture_defs graph_eval)
  have g: "registered blocks_language (SortObj block_sort)"
    by (simp add: registered_def get_sort_def fixture_defs)
  have c: "inclusion_closure pop_first blocks_language (SortObj block_sort)
       = Some (Inr [SortObj block_sort, SortObj object_sort])"
    by (simp add: loop_eval get_sort_def fixture_defs)
  have p: "parents blocks_language (SortObj block_sort) = Inr [SortObj object_sort]"
    by (simp add: parents_def get_sort_def fixture_defs)
  have o: "inclusion_closure pop_first blocks_language (SortObj object_sort)
       = Some (Inr [SortObj object_sort])"
    by (simp add: loop_eval get_sort_def fixture_defs)
  have n: "obj_name (SortObj block_sort) = ''block''" by (simp add: fixture_defs)
  have f: "map snd (filter (\<lambda>e. fst e = ''block'') (sort_hierarchy blocks_language)) = [''object'']"
    by (simp add: fixture_defs)
  show ?thesis
    using a r g c p o inclusion_closure_wellformed [OF a r g, of pop_first pop_first]
    unfolding n f by (simp only: simp_thms)
qed


text \<open>
  The claim C5 as stated fails: with an edge from \<open>block\<close> to a name that is not registered
  the edge set is acyclic, but \<^verbatim>\<open>parents\<close> cannot resolve the parent and
  \<^verbatim>\<open>inclusion_closure(block)\<close> raises instead of returning a set.
\<close>

theorem inclusion_closure_wellformed_counterexample:
  "acyclic (edges dangling_language)
   \<and> registered dangling_language (SortObj block_sort)
   \<and> inclusion_closure pop_first dangling_language (SortObj block_sort)
       = Some (Inl UndefinedSort)"
  by (simp add: loop_eval get_sort_def registered_def edges_def fixture_defs
      graph_eval)

lemma contains_loop_total:
  assumes acyc: "acyclic (edges L)" and res: "resolved L"
  shows "\<forall>p \<in> set F. registered L p \<Longrightarrow>
     \<exists>r. contains_loop sched L I x y fl F = Some r
        \<and> ((\<forall>q \<in> objs L ((edges L)\<^sup>* `` (obj_name ` set F)). verdict x y fl q = None)
               \<and> r = is_within_bounds I y
           \<or> (\<exists>q \<in> objs L ((edges L)\<^sup>* `` (obj_name ` set F)). verdict x y fl q = Some r))"
  using wf_frontier[OF acyc]
proof (induction F arbitrary: sched rule: wf_induct_rule)
  case (less F)
  let ?R = "\<lambda>F. objs L ((edges L)\<^sup>* `` (obj_name ` set F))"
  show ?case
  proof (cases "F = []")
    case True
    then show ?thesis by (subst contains_loop.simps) (simp add: objs_def)
  next
    case False
    obtain p rest where pop: "pyset_pop (sched 0) F = (p, rest)" by (cases "pyset_pop (sched 0) F")
    obtain ps where par: "parents L p = Inr ps" using parents_char[OF res] by blast
    note st = frontier_step[OF res False pop less.prems(1) par]
    note rs = objs_reach_step[OF res False pop less.prems(1) par]
    show ?thesis
    proof (cases "verdict x y fl p")
      case (Some r0)
      then have "contains_loop sched L I x y fl F = Some r0"
        using False pop
        by (subst contains_loop.simps) (auto simp: verdict_def split: sum.splits if_splits)
      moreover have "p \<in> ?R F" using rs by simp
      ultimately show ?thesis using Some by blast
    next
      case None
      then have "contains_loop sched L I x y fl F
          = contains_loop (\<lambda>k. sched (Suc k)) L I x y fl (fold pyset_add ps rest)"
        using False pop par
        by (subst contains_loop.simps) (auto simp: verdict_def split: sum.splits if_splits)
      moreover from less.IH[OF st(1) st(3), of "\<lambda>k. sched (Suc k)"] obtain r where
        "contains_loop (\<lambda>k. sched (Suc k)) L I x y fl (fold pyset_add ps rest) = Some r"
        "(\<forall>q \<in> ?R (fold pyset_add ps rest). verdict x y fl q = None) \<and> r = is_within_bounds I y
           \<or> (\<exists>q \<in> ?R (fold pyset_add ps rest). verdict x y fl q = Some r)"
        by blast
      ultimately show ?thesis using None rs by auto
    qed
  qed
qed

lemma Interval_contains_total:
  assumes acyc: "acyclic (edges L)" and res: "resolved L" and enc: "encode I x = Inr y"
  shows "\<exists>r. Interval_contains sched L I x fl = Some r
        \<and> ((\<forall>q \<in> objs L ((edges L)\<^sup>+ `` {name I}). verdict x y fl q = None)
               \<and> r = is_within_bounds I y
           \<or> (\<exists>q \<in> objs L ((edges L)\<^sup>+ `` {name I}). verdict x y fl q = Some r))"
proof -
  obtain ps where ps: "parents L (IntervalObj I) = Inr ps" "set ps = objs L (edges L `` {name I})"
    using parents_char[OF res, of "IntervalObj I"] by auto
  have regps: "\<forall>P \<in> set ps. registered L P" using ps(2) by (simp add: objs_def)
  then have F0: "set (pyset_of ps) = set ps"
    using fold_pyset_add_set[of "[]" ps L] by (simp add: pyset_of_def)
  have "obj_name ` set (pyset_of ps) = edges L `` {name I}"
    using F0 ps(2) objs_image_names[OF res] by simp
  then have R: "(edges L)\<^sup>* `` (obj_name ` set (pyset_of ps)) = (edges L)\<^sup>+ `` {name I}"
    by (simp add: reach_parents)
  have "Interval_contains sched L I x fl = contains_loop sched L I x y fl (pyset_of ps)"
    using enc ps(1) by (simp add: Interval_contains_def)
  then show ?thesis
    using contains_loop_total[OF acyc res, of "pyset_of ps" sched I x y fl] F0 regps R by simp
qed

lemma ancestor_verdict:
  assumes "q \<in> objs L ((edges L)\<^sup>+ `` {n})"
  shows "\<exists>a \<in> set (ancestors L n). cast_at L a x = cast q x"
proof -
  from assms obtain a where "a \<in> set (ancestors L n)" "get_sort L a = Inr q"
    using objs_ancestors by blast
  then have "a \<in> set (ancestors L n) \<and> cast_at L a x = cast q x" by (simp add: cast_at_def)
  then show ?thesis by blast
qed

lemma ancestor_object:
  assumes "resolved L" "a \<in> set (ancestors L n)"
  shows "\<exists>q \<in> objs L ((edges L)\<^sup>+ `` {n}). cast_at L a x = cast q x"
proof -
  from assms(2) have "(n, a) \<in> (edges L)\<^sup>+" using ancestors_set by blast
  then obtain c where "(c, a) \<in> edges L" by (meson tranclE)
  from resolved_edge[OF assms(1) this] obtain q where q: "get_sort L a = Inr q" by blast
  then have "q \<in> objs L ((edges L)\<^sup>+ `` {n})" using objs_ancestors assms(2) by blast
  with q show ?thesis by (auto simp: cast_at_def)
qed

text \<open>
  C2 (amended). Let the edge set be acyclic with every edge naming a registered sort, let
  \<^verbatim>\<open>encode(x)\<close> succeed with \<open>y\<close>, and let no ancestor's \<^verbatim>\<open>cast(x)\<close> raise. Then,
  whatever the order of the traversal, \<^verbatim>\<open>contains\<close> returns: if the \<^verbatim>\<open>cast(x)\<close> of some
  ancestor is a defined value other than \<open>y\<close>, the result is false (\<^verbatim>\<open>SemanticError\<close>
  when the flag is set); otherwise it is \<^verbatim>\<open>is_within_bounds(y)\<close>. If \<^verbatim>\<open>encode(x)\<close>
  raises \<^verbatim>\<open>ValueError\<close>, the result is false (\<^verbatim>\<open>SemanticError\<close> when the flag is set).
\<close>

theorem Interval_contains_consistency:
  "(acyclic (edges L) \<and> resolved L \<and> encode I x = Inr y
      \<and> (\<forall>a \<in> set (ancestors L (name I)). \<exists>z. cast_at L a x = Inr z)
    \<longrightarrow> Interval_contains sched L I x raises_exceptions =
          Some (if \<exists>a \<in> set (ancestors L (name I)). \<exists>z.
                     cast_at L a x = Inr z \<and> z \<noteq> NoneV \<and> z \<noteq> IntV y
                then (if raises_exceptions then Inl (SemanticError CastMismatch) else Inr False)
                else is_within_bounds I y))
   \<and> (encode I x = Inl ValueError
    \<longrightarrow> Interval_contains sched L I x raises_exceptions =
          Some (if raises_exceptions then Inl (SemanticError CannotEncode) else Inr False))"
proof (intro conjI impI)
  assume "encode I x = Inl ValueError"
  then show "Interval_contains sched L I x raises_exceptions =
          Some (if raises_exceptions then Inl (SemanticError CannotEncode) else Inr False)"
    by (simp add: Interval_contains_def)
next
  let ?A = "objs L ((edges L)\<^sup>+ `` {name I})"
  let ?rej = "if raises_exceptions then Inl (SemanticError CastMismatch) else Inr False"
  let ?bad = "\<exists>a \<in> set (ancestors L (name I)). \<exists>z.
                     cast_at L a x = Inr z \<and> z \<noteq> NoneV \<and> z \<noteq> IntV y"
  assume h: "acyclic (edges L) \<and> resolved L \<and> encode I x = Inr y
      \<and> (\<forall>a \<in> set (ancestors L (name I)). \<exists>z. cast_at L a x = Inr z)"
  then have acyc: "acyclic (edges L)" and res: "resolved L" and enc: "encode I x = Inr y"
    and ok: "\<forall>a \<in> set (ancestors L (name I)). \<exists>z. cast_at L a x = Inr z" by simp_all
  have v: "\<And>q r. q \<in> ?A \<Longrightarrow> verdict x y raises_exceptions q = Some r \<Longrightarrow> r = ?rej \<and> ?bad"
  proof -
    fix q r assume q: "q \<in> ?A" and vq: "verdict x y raises_exceptions q = Some r"
    from ancestor_verdict[OF q, of x] obtain a where
      a: "a \<in> set (ancestors L (name I))" "cast_at L a x = cast q x" by blast
    with ok obtain z where z: "cast q x = Inr z" by metis
    with vq have "r = ?rej" "z \<noteq> NoneV \<and> z \<noteq> IntV y"
      by (auto simp: verdict_def split: if_splits)
    with a z show "r = ?rej \<and> ?bad" by auto
  qed
  have nv: "(\<forall>q \<in> ?A. verdict x y raises_exceptions q = None) \<Longrightarrow> \<not> ?bad"
  proof
    assume all: "\<forall>q \<in> ?A. verdict x y raises_exceptions q = None" and ?bad
    then obtain a z where a: "a \<in> set (ancestors L (name I))"
      "cast_at L a x = Inr z" "z \<noteq> NoneV" "z \<noteq> IntV y" by blast
    from ancestor_object[OF res a(1), of x] obtain q where
      q: "q \<in> ?A" "cast_at L a x = cast q x" by blast
    with a have "verdict x y raises_exceptions q \<noteq> None" by (auto simp: verdict_def)
    with all q(1) show False by simp
  qed
  from Interval_contains_total[OF acyc res enc, of sched raises_exceptions] obtain r where
    r: "Interval_contains sched L I x raises_exceptions = Some r"
       "(\<forall>q \<in> ?A. verdict x y raises_exceptions q = None) \<and> r = is_within_bounds I y
          \<or> (\<exists>q \<in> ?A. verdict x y raises_exceptions q = Some r)" by blast
  from r(2) show "Interval_contains sched L I x raises_exceptions =
          Some (if ?bad then ?rej else is_within_bounds I y)"
  proof
    assume c: "(\<forall>q \<in> ?A. verdict x y raises_exceptions q = None) \<and> r = is_within_bounds I y"
    then have "\<not> ?bad" using nv by blast
    then have "(if ?bad then ?rej else is_within_bounds I y) = r" using c by (simp only: if_False)
    with r(1) show ?thesis by (simp only:)
  next
    assume "\<exists>q \<in> ?A. verdict x y raises_exceptions q = Some r"
    then have "r = ?rej \<and> ?bad" using v by blast
    then have "(if ?bad then ?rej else is_within_bounds I y) = r" by (simp only: if_True)
    with r(1) show ?thesis by (simp only:)
  qed
qed


theorem Interval_contains_consistency_witness:
  "acyclic (edges numbers_language) \<and> resolved numbers_language
   \<and> encode small_interval (Raw (IntV 5)) = Inr 5
   \<and> ancestors numbers_language (name small_interval) = [''Integer'']
   \<and> cast_at numbers_language ''Integer'' (Raw (IntV 5)) = Inr (IntV 5)
   \<and> Interval_contains pop_first numbers_language small_interval (Raw (IntV 5)) False
       = Some (Inr True)
   \<and> encode small_interval (Raw (StrV ''five'')) = Inl ValueError
   \<and> Interval_contains pop_first numbers_language small_interval (Raw (StrV ''five'')) False
       = Some (Inr False)"
proof -
  have anc: "ancestors numbers_language (name small_interval) = [''Integer'']"
    by (simp add: ancestors_def fixture_defs graph_eval)
  have a: "acyclic (edges numbers_language)"
    by (simp add: edges_def fixture_defs graph_eval)
  have r: "resolved numbers_language"
    by (simp add: resolved_def fixture_defs)
  have e: "encode small_interval (Raw (IntV 5)) = Inr 5"
    by (simp add: fixture_defs)
  have c: "cast_at numbers_language ''Integer'' (Raw (IntV 5)) = Inr (IntV 5)"
    by (simp add: fixture_defs interval_eval)
  have f: "encode small_interval (Raw (StrV ''five'')) = Inl ValueError"
    by (simp add: fixture_defs int_eval)
  have w: "is_within_bounds small_interval 5 = Inr True"
    by (simp add: fixture_defs is_within_bounds_def)
  show ?thesis
    using a r e f c w anc
      Interval_contains_consistency [of numbers_language small_interval "Raw (IntV 5)" 5
        pop_first False]
      Interval_contains_consistency [of numbers_language small_interval "Raw (StrV ''five'')" 0
        pop_first False]
    by simp
qed


text \<open>
  The claim C2 as stated fails: below, \<open>small\<close> has both bounds set, \<^verbatim>\<open>encode("5")\<close> is 5,
  and the ancestor \<open>label\<close> casts \<^verbatim>\<open>"5"\<close> to the string, a defined value other than 5;
  yet \<^verbatim>\<open>contains\<close> does not return false, because the nearer ancestor \<open>tiny\<close> raises
  first.
\<close>

theorem Interval_contains_consistency_counterexample:
  "lower_bound small_interval = Some 0 \<and> upper_bound small_interval = Some 10
   \<and> encode small_interval (Raw (StrV ''5'')) = Inr 5
   \<and> ''label'' \<in> set (ancestors narrow_language (name small_interval))
   \<and> cast_at narrow_language ''label'' (Raw (StrV ''5'')) = Inr (StrV ''5'')
   \<and> StrV ''5'' \<noteq> NoneV \<and> StrV ''5'' \<noteq> IntV 5
   \<and> Interval_contains pop_first narrow_language small_interval (Raw (StrV ''5'')) False
       = Some (Inl LanguageError)"
  by (simp add: fixture_defs loop_eval interval_eval int_eval ancestors_def graph_eval)


text \<open>The traversal in terms of the ancestors it can reach.\<close>

lemma cast_at_registered: "registered L q \<Longrightarrow> cast_at L (obj_name q) x = cast q x"
  by (simp add: cast_at_def registered_def)

lemma verdict_passes:
  "registered L q \<Longrightarrow> verdict x y fl q = None \<longleftrightarrow> passes L x y (obj_name q)"
  by (auto simp: verdict_def passes_def cast_at_registered split: sum.splits if_splits)

lemma open_step:
  "passes L x y a \<Longrightarrow> set (open_edges L x y) `` {a} = edges L `` {a}"
  by (auto simp: open_edges_def edges_def)

lemma contains_loop_visited:
  assumes acyc: "acyclic (edges L)" and res: "resolved L"
  shows "\<forall>p \<in> set F. registered L p \<Longrightarrow>
     \<exists>r. contains_loop sched L I x y fl F = Some r
        \<and> ((\<forall>q \<in> objs L ((set (open_edges L x y))\<^sup>* `` (obj_name ` set F)). verdict x y fl q = None)
               \<and> r = is_within_bounds I y
           \<or> (\<exists>q \<in> objs L ((set (open_edges L x y))\<^sup>* `` (obj_name ` set F)).
                 verdict x y fl q = Some r))"
  using wf_frontier[OF acyc]
proof (induction F arbitrary: sched rule: wf_induct_rule)
  case (less F)
  let ?O = "set (open_edges L x y)"
  let ?R = "\<lambda>F. objs L (?O\<^sup>* `` (obj_name ` set F))"
  show ?case
  proof (cases "F = []")
    case True
    then show ?thesis by (subst contains_loop.simps) (simp add: objs_def)
  next
    case False
    obtain p rest where pop: "pyset_pop (sched 0) F = (p, rest)" by (cases "pyset_pop (sched 0) F")
    obtain ps where par: "parents L p = Inr ps" using parents_char[OF res] by blast
    note st = frontier_step[OF res False pop less.prems(1) par]
    have setF: "set F = insert p (set rest)" using pyset_pop_set[OF False pop] .
    then have regp: "registered L p" using less.prems by simp
    have pR: "p \<in> ?R F" using setF regp by (auto simp: objs_def)
    show ?thesis
    proof (cases "verdict x y fl p")
      case (Some r0)
      then have "contains_loop sched L I x y fl F = Some r0"
        using False pop
        by (subst contains_loop.simps) (auto simp: verdict_def split: sum.splits if_splits)
      then show ?thesis using Some pR by blast
    next
      case None
      then have pass: "passes L x y (obj_name p)" using verdict_passes[OF regp] by simp
      have "obj_name ` set (fold pyset_add ps rest) = obj_name ` set rest \<union> edges L `` {obj_name p}"
        using st(2) objs_image_names[OF res, of "{obj_name p}"] by (simp add: image_Un)
      moreover have "obj_name ` set F = insert (obj_name p) (obj_name ` set rest)"
        using setF by simp
      ultimately have "?O\<^sup>* `` (obj_name ` set F)
          = insert (obj_name p) (?O\<^sup>* `` (obj_name ` set (fold pyset_add ps rest)))"
        using reach_step[of ?O "obj_name p" "obj_name ` set rest"] open_step[OF pass] by simp
      then have rs: "?R F = insert p (?R (fold pyset_add ps rest))"
        using objs_Un[of L "{obj_name p}"] objs_name[OF regp] by simp
      have "contains_loop sched L I x y fl F
          = contains_loop (\<lambda>k. sched (Suc k)) L I x y fl (fold pyset_add ps rest)"
        using None False pop par
        by (subst contains_loop.simps) (auto simp: verdict_def split: sum.splits if_splits)
      moreover from less.IH[OF st(1) st(3), of "\<lambda>k. sched (Suc k)"] obtain r where
        "contains_loop (\<lambda>k. sched (Suc k)) L I x y fl (fold pyset_add ps rest) = Some r"
        "(\<forall>q \<in> ?R (fold pyset_add ps rest). verdict x y fl q = None) \<and> r = is_within_bounds I y
           \<or> (\<exists>q \<in> ?R (fold pyset_add ps rest). verdict x y fl q = Some r)"
        by blast
      ultimately show ?thesis using None rs by auto
    qed
  qed
qed

lemma visited_set:
  "set (visited L I x y) = (set (open_edges L x y))\<^sup>* `` (edges L `` {name I})"
proof -
  let ?O = "set (open_edges L x y)"
  have sub: "?O \<subseteq> edges L" by (auto simp: open_edges_def edges_def)
  have rng: "\<And>p a. (p, a) \<in> ?O\<^sup>* \<Longrightarrow> p \<in> snd ` edges L \<Longrightarrow> a \<in> snd ` edges L"
  proof -
    fix p a assume "(p, a) \<in> ?O\<^sup>*" "p \<in> snd ` edges L"
    then show "a \<in> snd ` edges L"
      by (induction rule: rtrancl_induct) (use sub in force)+
  qed
  have par: "set (map snd (filter (\<lambda>e. fst e = name I) (sort_hierarchy L))) = edges L `` {name I}"
    by (force simp: edges_def)
  show ?thesis
  proof (intro equalityI subsetI)
    fix a assume "a \<in> set (visited L I x y)"
    then show "a \<in> ?O\<^sup>* `` (edges L `` {name I})"
      unfolding visited_def par by auto
  next
    fix a assume "a \<in> ?O\<^sup>* `` (edges L `` {name I})"
    then obtain p where p: "p \<in> edges L `` {name I}" "(p, a) \<in> ?O\<^sup>*" by blast
    then have "p \<in> snd ` edges L" by force
    with rng[OF p(2)] have "a \<in> set (map snd (sort_hierarchy L))" by (simp add: edges_def)
    with p show "a \<in> set (visited L I x y)" unfolding visited_def par by auto
  qed
qed

lemma visited_object:
  assumes "q \<in> objs L (set (visited L I x y))"
  shows "obj_name q \<in> set (visited L I x y) \<and> cast_at L (obj_name q) x = cast q x"
  using assms by (simp add: objs_def cast_at_registered)

lemma visited_name:
  assumes "resolved L" "a \<in> set (visited L I x y)"
  shows "\<exists>q \<in> objs L (set (visited L I x y)). obj_name q = a \<and> cast_at L a x = cast q x"
proof -
  have "a \<in> set (map snd (sort_hierarchy L))" using assms(2) by (simp add: visited_def)
  then obtain c where "(c, a) \<in> edges L" by (force simp: edges_def)
  from resolved_edge[OF assms(1) this] obtain q where q: "get_sort L a = Inr q" by blast
  then have "registered L q" "obj_name q = a"
    using get_sort_registered get_sort_name by blast+
  then show ?thesis using assms(2) by (auto simp: objs_def cast_at_registered)
qed

lemma Interval_contains_visited:
  assumes acyc: "acyclic (edges L)" and res: "resolved L" and enc: "encode I x = Inr y"
  shows "\<exists>r. Interval_contains sched L I x fl = Some r
        \<and> ((\<forall>q \<in> objs L (set (visited L I x y)). verdict x y fl q = None)
               \<and> r = is_within_bounds I y
           \<or> (\<exists>q \<in> objs L (set (visited L I x y)). verdict x y fl q = Some r))"
proof -
  obtain ps where ps: "parents L (IntervalObj I) = Inr ps" "set ps = objs L (edges L `` {name I})"
    using parents_char[OF res, of "IntervalObj I"] by auto
  have regps: "\<forall>P \<in> set ps. registered L P" using ps(2) by (simp add: objs_def)
  then have F0: "set (pyset_of ps) = set ps"
    using fold_pyset_add_set[of "[]" ps L] by (simp add: pyset_of_def)
  have "obj_name ` set (pyset_of ps) = edges L `` {name I}"
    using F0 ps(2) objs_image_names[OF res] by simp
  then have R: "(set (open_edges L x y))\<^sup>* `` (obj_name ` set (pyset_of ps)) = set (visited L I x y)"
    by (simp add: visited_set)
  have "Interval_contains sched L I x fl = contains_loop sched L I x y fl (pyset_of ps)"
    using enc ps(1) by (simp add: Interval_contains_def)
  then show ?thesis
    using contains_loop_visited[OF acyc res, of "pyset_of ps" sched I x y fl] F0 regps R by simp
qed

text \<open>
  C3 (amended). Let the edge set be acyclic with every edge naming a registered sort and
  let \<^verbatim>\<open>encode(x)\<close> succeed with \<open>y\<close>. The traversal can reach the direct parents, and the
  parents of every reached ancestor whose \<^verbatim>\<open>cast(x)\<close> is \<^verbatim>\<open>None\<close> or \<open>y\<close>. If the
  \<^verbatim>\<open>cast(x)\<close> of some ancestor it can reach raises an exception \<open>e\<close>, and the \<^verbatim>\<open>cast(x)\<close>
  of every ancestor it can reach either raises \<open>e\<close> or is \<^verbatim>\<open>None\<close> or \<open>y\<close>, then
  \<^verbatim>\<open>contains\<close> raises, for either value of the flag and every order of the traversal:
  \<^verbatim>\<open>LanguageError\<close> when \<open>e\<close> is \<^verbatim>\<open>ValueError\<close>, and \<open>e\<close> itself otherwise. A raising
  \<^verbatim>\<open>cast\<close> is never turned into the value false: whenever \<^verbatim>\<open>contains\<close> returns a
  boolean, it is false with the flag unset because the \<^verbatim>\<open>cast(x)\<close> of a reached ancestor
  is a defined value other than \<open>y\<close>, or it is \<^verbatim>\<open>is_within_bounds(y)\<close> after every reached
  ancestor passed.
\<close>

theorem Interval_contains_escalation:
  assumes acyc: "acyclic (edges L)" and res: "resolved L" and enc: "encode I x = Inr y"
  shows "((\<exists>a \<in> set (visited L I x y). cast_at L a x = Inl e)
            \<and> (\<forall>a \<in> set (visited L I x y). cast_at L a x = Inl e \<or> passes L x y a)
          \<longrightarrow> Interval_contains sched L I x raises_exceptions
                = Some (Inl (if e = ValueError then LanguageError else e)))
       \<and> (\<forall>b. Interval_contains sched L I x raises_exceptions = Some (Inr b)
            \<longrightarrow> (\<not> raises_exceptions \<and> \<not> b
                   \<and> (\<exists>a \<in> set (visited L I x y). \<exists>z.
                         cast_at L a x = Inr z \<and> z \<noteq> NoneV \<and> z \<noteq> IntV y))
                \<or> ((\<forall>a \<in> set (visited L I x y). passes L x y a)
                    \<and> is_within_bounds I y = Inr b))"
proof -
  let ?V = "set (visited L I x y)"
  let ?fl = raises_exceptions
  from Interval_contains_visited[OF acyc res enc, of sched ?fl] obtain r where
    r: "Interval_contains sched L I x ?fl = Some r"
    and cases: "(\<forall>q \<in> objs L ?V. verdict x y ?fl q = None) \<and> r = is_within_bounds I y
          \<or> (\<exists>q \<in> objs L ?V. verdict x y ?fl q = Some r)" by blast
  have allpass: "(\<forall>q \<in> objs L ?V. verdict x y ?fl q = None) \<Longrightarrow> \<forall>a \<in> ?V. passes L x y a"
  proof
    fix a assume all: "\<forall>q \<in> objs L ?V. verdict x y ?fl q = None" and a: "a \<in> ?V"
    from visited_name[OF res a] obtain q where q: "q \<in> objs L ?V" "obj_name q = a" by blast
    then have "registered L q" by (simp add: objs_def)
    from verdict_passes[OF this, of x y ?fl] all q show "passes L x y a" by simp
  qed
  have first: "(\<exists>a \<in> ?V. cast_at L a x = Inl e)
            \<and> (\<forall>a \<in> ?V. cast_at L a x = Inl e \<or> passes L x y a)
          \<longrightarrow> Interval_contains sched L I x ?fl = Some (Inl (if e = ValueError then LanguageError else e))"
  proof
    assume h: "(\<exists>a \<in> ?V. cast_at L a x = Inl e)
            \<and> (\<forall>a \<in> ?V. cast_at L a x = Inl e \<or> passes L x y a)"
    then obtain a where a: "a \<in> ?V" "cast_at L a x = Inl e" by blast
    then have "\<not> passes L x y a" by (simp add: passes_def)
    with allpass a(1) have "\<not> (\<forall>q \<in> objs L ?V. verdict x y ?fl q = None)" by blast
    with cases obtain q where q: "q \<in> objs L ?V" "verdict x y ?fl q = Some r" by blast
    from visited_object[OF q(1)] have qa: "obj_name q \<in> ?V" "cast_at L (obj_name q) x = cast q x"
      by simp_all
    have "registered L q" using q(1) by (simp add: objs_def)
    from verdict_passes[OF this, of x y ?fl] q(2) have "\<not> passes L x y (obj_name q)" by simp
    with h qa have "cast q x = Inl e" by metis
    with q(2) have "r = Inl (if e = ValueError then LanguageError else e)"
      by (simp add: verdict_def)
    with r show "Interval_contains sched L I x ?fl = Some (Inl (if e = ValueError then LanguageError else e))"
      by simp
  qed
  have second: "\<forall>b. Interval_contains sched L I x ?fl = Some (Inr b)
            \<longrightarrow> (\<not> ?fl \<and> \<not> b
                   \<and> (\<exists>a \<in> ?V. \<exists>z. cast_at L a x = Inr z \<and> z \<noteq> NoneV \<and> z \<noteq> IntV y))
                \<or> ((\<forall>a \<in> ?V. passes L x y a) \<and> is_within_bounds I y = Inr b)"
  proof (intro allI impI)
    fix b assume "Interval_contains sched L I x ?fl = Some (Inr b)"
    with r have rb: "r = Inr b" by simp
    from cases show "(\<not> ?fl \<and> \<not> b
                   \<and> (\<exists>a \<in> ?V. \<exists>z. cast_at L a x = Inr z \<and> z \<noteq> NoneV \<and> z \<noteq> IntV y))
                \<or> ((\<forall>a \<in> ?V. passes L x y a) \<and> is_within_bounds I y = Inr b)"
    proof
      assume "(\<forall>q \<in> objs L ?V. verdict x y ?fl q = None) \<and> r = is_within_bounds I y"
      with allpass rb show ?thesis by simp
    next
      assume "\<exists>q \<in> objs L ?V. verdict x y ?fl q = Some r"
      then obtain q where q: "q \<in> objs L ?V" "verdict x y ?fl q = Some (Inr b)" using rb by blast
      from visited_object[OF q(1)] have qa: "obj_name q \<in> ?V" "cast_at L (obj_name q) x = cast q x"
        by simp_all
      from q(2) obtain z where "cast q x = Inr z" "z \<noteq> NoneV" "z \<noteq> IntV y" "\<not> ?fl" "\<not> b"
        by (auto simp: verdict_def split: sum.splits if_splits)
      with qa show ?thesis by metis
    qed
  qed
  from first second show ?thesis by (rule conjI)
qed


theorem Interval_contains_escalation_witness:
  "acyclic (edges narrow_language) \<and> resolved narrow_language
   \<and> encode small_interval (Raw (StrV ''5'')) = Inr 5
   \<and> visited narrow_language small_interval (Raw (StrV ''5'')) 5 = [''tiny'']
   \<and> cast_at narrow_language ''tiny'' (Raw (StrV ''5'')) = Inl ValueError
   \<and> Interval_contains pop_first narrow_language small_interval (Raw (StrV ''5'')) False
       = Some (Inl LanguageError)
   \<and> Interval_contains pop_first narrow_language small_interval (Raw (StrV ''5'')) True
       = Some (Inl LanguageError)
   \<and> acyclic (edges lenient_language) \<and> resolved lenient_language
   \<and> encode lenient_interval (Raw NoneV) = Inr 0
   \<and> visited lenient_language lenient_interval (Raw NoneV) 0 = [''Integer'']
   \<and> cast_at lenient_language ''Integer'' (Raw NoneV) = Inl TypeError
   \<and> Interval_contains pop_first lenient_language lenient_interval (Raw NoneV) False
       = Some (Inl TypeError)
   \<and> acyclic (edges unbounded_language) \<and> resolved unbounded_language
   \<and> encode small_interval (Raw (IntV 5)) = Inr 5
   \<and> visited unbounded_language small_interval (Raw (IntV 5)) 5 = [''open'']
   \<and> cast_at unbounded_language ''open'' (Raw (IntV 5)) = Inl (SemanticError NoBoundsSet)
   \<and> Interval_contains pop_first unbounded_language small_interval (Raw (IntV 5)) True
       = Some (Inl (SemanticError NoBoundsSet))"
proof -
  have a: "acyclic (edges narrow_language)"
    by (simp add: edges_def fixture_defs graph_eval)
  have r: "resolved narrow_language"
    by (simp add: resolved_def fixture_defs)
  have e: "encode small_interval (Raw (StrV ''5'')) = Inr 5"
    by (simp add: fixture_defs int_eval)
  have c: "cast_at narrow_language ''tiny'' (Raw (StrV ''5'')) = Inl ValueError"
    by (simp add: fixture_defs interval_eval int_eval)
  have v: "visited narrow_language small_interval (Raw (StrV ''5'')) 5 = [''tiny'']"
    by (simp add: visited_eval fixture_defs interval_eval int_eval graph_eval)
  have a': "acyclic (edges lenient_language)"
    by (simp add: edges_def fixture_defs graph_eval)
  have r': "resolved lenient_language"
    by (simp add: resolved_def fixture_defs)
  have e': "encode lenient_interval (Raw NoneV) = Inr 0"
    by (simp add: fixture_defs)
  have c': "cast_at lenient_language ''Integer'' (Raw NoneV) = Inl TypeError"
    by (simp add: fixture_defs interval_eval)
  have v': "visited lenient_language lenient_interval (Raw NoneV) 0 = [''Integer'']"
    by (simp add: visited_eval fixture_defs interval_eval graph_eval)
  have a'': "acyclic (edges unbounded_language)"
    by (simp add: edges_def fixture_defs graph_eval)
  have r'': "resolved unbounded_language"
    by (simp add: resolved_def fixture_defs)
  have e'': "encode small_interval (Raw (IntV 5)) = Inr 5"
    by (simp add: fixture_defs)
  have c'': "cast_at unbounded_language ''open'' (Raw (IntV 5)) = Inl (SemanticError NoBoundsSet)"
    by (simp add: fixture_defs interval_eval)
  have v'': "visited unbounded_language small_interval (Raw (IntV 5)) 5 = [''open'']"
    by (simp add: visited_eval fixture_defs interval_eval graph_eval)
  show ?thesis
    using a r e c v a' r' e' c' v' a'' r'' e'' c'' v''
      Interval_contains_escalation [OF a'' r'' e'', of "SemanticError NoBoundsSet" pop_first True]
      Interval_contains_escalation [OF a r e, of ValueError pop_first False]
      Interval_contains_escalation [OF a r e, of ValueError pop_first True]
      Interval_contains_escalation [OF a' r' e', of TypeError pop_first False]
    by simp
qed


text \<open>
  The claim C3 as stated fails. The \<^verbatim>\<open>cast(None)\<close> of the ancestor \<open>Integer\<close> raises
  \<^verbatim>\<open>TypeError\<close>, and \<^verbatim>\<open>contains\<close> lets it through unchanged under either flag: only
  \<^verbatim>\<open>ValueError\<close> becomes \<^verbatim>\<open>LanguageError\<close>. And where \<open>small\<close> has the two parents
  \<open>label\<close> and \<open>tiny\<close>, the \<^verbatim>\<open>cast("5")\<close> of \<open>tiny\<close> raises \<^verbatim>\<open>ValueError\<close>, yet
  \<^verbatim>\<open>contains\<close> returns false when \<open>label\<close> is popped first and raises
  \<^verbatim>\<open>LanguageError\<close> when \<open>tiny\<close> is.
\<close>

theorem Interval_contains_escalation_counterexample:
  "encode lenient_interval (Raw NoneV) = Inr 0
   \<and> ''Integer'' \<in> set (ancestors lenient_language (name lenient_interval))
   \<and> cast_at lenient_language ''Integer'' (Raw NoneV) = Inl TypeError
   \<and> Interval_contains pop_first lenient_language lenient_interval (Raw NoneV) False
       = Some (Inl TypeError)
   \<and> Interval_contains pop_first lenient_language lenient_interval (Raw NoneV) True
       = Some (Inl TypeError)
   \<and> encode small_interval (Raw (StrV ''5'')) = Inr 5
   \<and> ''tiny'' \<in> set (ancestors forked_language (name small_interval))
   \<and> cast_at forked_language ''tiny'' (Raw (StrV ''5'')) = Inl ValueError
   \<and> Interval_contains pop_first forked_language small_interval (Raw (StrV ''5'')) False
       = Some (Inr False)
   \<and> Interval_contains pop_second forked_language small_interval (Raw (StrV ''5'')) False
       = Some (Inl LanguageError)"
  by (simp add: fixture_defs loop_eval interval_eval int_eval
      ancestors_def graph_eval)

section \<open>extend\<close>

lemma grow1_refl: "grow1 v q q"
  by (simp add: grow1_def)

lemma grow1_trans: "grow1 v q q1 \<Longrightarrow> grow1 v q1 q2 \<Longrightarrow> grow1 v q q2"
  by (auto simp: grow1_def)

lemma grow1_name: "grow1 v q q' \<Longrightarrow> obj_name q' = obj_name q"
  by (auto simp: grow1_def)

lemma grows_refl: "grows v L L"
  by (simp add: grows_def list_all2_refl grow1_refl)

lemma grows_trans:
  assumes "grows v L L1" "grows v L1 L2"
  shows "grows v L L2"
proof -
  have a: "list_all2 (grow1 v) (sorts L) (sorts L1)" and b: "list_all2 (grow1 v) (sorts L1) (sorts L2)"
    using assms by (simp_all add: grows_def)
  have "list_all2 (grow1 v) (sorts L) (sorts L2)"
    by (rule list_all2_trans[of "grow1 v" "grow1 v" "grow1 v", OF grow1_trans a b])
  then show ?thesis using assms by (simp add: grows_def)
qed

lemma grows_edges: "grows v L L' \<Longrightarrow> edges L' = edges L"
  by (simp add: grows_def edges_def)

lemma find_grow:
  "list_all2 (grow1 v) xs ys \<Longrightarrow>
   rel_option (grow1 v) (find (\<lambda>q. obj_name q = n) xs) (find (\<lambda>q. obj_name q = n) ys)"
  by (induction rule: list_all2_induct) (auto simp: grow1_name)

lemma grows_names:
  assumes "grows v L L'"
  shows "map obj_name (sorts L') = map obj_name (sorts L)"
proof -
  have "list_all2 (grow1 v) (sorts L) (sorts L')" using assms by (simp add: grows_def)
  then show ?thesis by (induction rule: list_all2_induct) (simp_all add: grow1_name)
qed

lemma grows_get_sort:
  assumes "grows v L L'" "get_sort L n = Inr q"
  shows "\<exists>q'. get_sort L' n = Inr q' \<and> grow1 v q q'"
proof -
  have "rel_option (grow1 v) (find (\<lambda>q. obj_name q = n) (sorts L)) (find (\<lambda>q. obj_name q = n) (sorts L'))"
    using assms(1) find_grow by (simp add: grows_def)
  moreover from assms(2) have "find (\<lambda>q. obj_name q = n) (sorts L) = Some q"
    by (simp add: get_sort_def split: option.splits)
  ultimately obtain q' where "find (\<lambda>q. obj_name q = n) (sorts L') = Some q'" "grow1 v q q'"
    by (cases "find (\<lambda>q. obj_name q = n) (sorts L')") simp_all
  then show ?thesis by (simp add: get_sort_def)
qed

lemma grows_resolved:
  assumes "grows v L L'" "resolved L"
  shows "resolved L'"
proof -
  have "obj_name ` set (sorts L') = obj_name ` set (sorts L)"
    using grows_names[OF assms(1)] by (metis set_map)
  moreover have "sort_hierarchy L' = sort_hierarchy L" using assms(1) by (simp add: grows_def)
  moreover have "\<And>M. resolved M = (\<forall>e \<in> set (sort_hierarchy M). snd e \<in> obj_name ` set (sorts M))"
    unfolding resolved_def by (simp add: image_iff eq_commute)
  ultimately show ?thesis using assms(2) by simp
qed

lemma has_mono:
  assumes "grows v L L'" "has v L A"
  shows "has v L' A"
proof -
  from assms(2) obtain S where S: "get_sort L A = Inr (SortObj S)" "v \<in> domain S"
    by (auto simp: has_def)
  from grows_get_sort[OF assms(1) S(1)] obtain q' where
    "get_sort L' A = Inr q'" "grow1 v (SortObj S) q'" by blast
  with S(2) show ?thesis by (auto simp: has_def grow1_def)
qed

lemma put_first_same:
  "find (\<lambda>q. obj_name q = obj_name p) xs = Some p \<Longrightarrow> put_first p xs = xs"
  by (induction xs) (auto split: if_splits)

lemma put_sort_same:
  assumes "get_sort L n = Inr p"
  shows "put_sort L p = L"
proof -
  have "obj_name p = n" using get_sort_name[OF assms] by simp
  with assms have "find (\<lambda>q. obj_name q = obj_name p) (sorts L) = Some p"
    by (auto simp: get_sort_def split: option.splits)
  then show ?thesis by (simp add: put_sort_def put_first_same)
qed

lemma put_first_grow:
  "find (\<lambda>q. obj_name q = name S) xs = Some (SortObj S) \<Longrightarrow>
   list_all2 (grow1 v) xs (put_first (SortObj (S\<lparr> domain := insert v (domain S) \<rparr>)) xs)
   \<and> find (\<lambda>q. obj_name q = name S) (put_first (SortObj (S\<lparr> domain := insert v (domain S) \<rparr>)) xs)
       = Some (SortObj (S\<lparr> domain := insert v (domain S) \<rparr>))"
proof (induction xs)
  case Nil
  then show ?case by simp
next
  case (Cons q qs)
  show ?case
  proof (cases "obj_name q = name S")
    case True
    with Cons.prems have "q = SortObj S" by simp
    then show ?thesis by (auto simp: grow1_def list_all2_refl)
  next
    case False
    with Cons show ?thesis by (auto simp: grow1_def)
  qed
qed

lemma put_sort_grows:
  assumes "get_sort L n = Inr (SortObj S)"
  shows "grows v L (put_sort L (SortObj (S\<lparr> domain := insert v (domain S) \<rparr>)))"
    and "get_sort (put_sort L (SortObj (S\<lparr> domain := insert v (domain S) \<rparr>))) n
           = Inr (SortObj (S\<lparr> domain := insert v (domain S) \<rparr>))"
proof -
  have n: "name S = n" using get_sort_name[OF assms] by simp
  with assms have "find (\<lambda>q. obj_name q = name S) (sorts L) = Some (SortObj S)"
    by (auto simp: get_sort_def split: option.splits)
  from put_first_grow[OF this, of v] n
  show "grows v L (put_sort L (SortObj (S\<lparr> domain := insert v (domain S) \<rparr>)))"
    and "get_sort (put_sort L (SortObj (S\<lparr> domain := insert v (domain S) \<rparr>))) n
           = Inr (SortObj (S\<lparr> domain := insert v (domain S) \<rparr>))"
    by (simp_all add: grows_def put_sort_def get_sort_def)
qed

lemma discrete_edge:
  "(n, m) \<in> discrete_edges L \<Longrightarrow> (n, m) \<in> edges L \<and> is_discrete L n \<and> is_discrete L m"
  by (auto simp: discrete_edges_def edges_def)

lemma is_discrete_iff: "is_discrete L n \<longleftrightarrow> (\<exists>S. get_sort L n = Inr (SortObj S))"
  by (auto simp: is_discrete_def split: sum.splits sort_object.splits)

text \<open>The \<^verbatim>\<open>for\<close> loop over the parents, given that the call on each parent returns.\<close>

lemma extend_each_total:
  assumes step: "\<And>p L. p \<in> set ps \<Longrightarrow> grows v L0 L \<Longrightarrow>
      \<exists>L'. extend k L (obj_name p) (Constant v) = Some (Inr L') \<and> grows v L L'
            \<and> Q (obj_name p) L'"
    and mono: "\<And>m L L'. grows v L L' \<Longrightarrow> Q m L \<Longrightarrow> Q m L'"
    and g: "grows v L0 L"
  shows "\<exists>L'. extend_each k L ps (Constant v) = Some (Inr L') \<and> grows v L L'
          \<and> (\<forall>p \<in> set ps. Q (obj_name p) L')"
  using g step
proof (induction ps arbitrary: L)
  case Nil
  then show ?case by (simp add: grows_refl)
next
  case (Cons p ps)
  from Cons.prems(2)[of p L] Cons.prems(1) obtain L1 where
    L1: "extend k L (obj_name p) (Constant v) = Some (Inr L1)" "grows v L L1" "Q (obj_name p) L1"
    by auto
  have g1: "grows v L0 L1" using grows_trans[OF Cons.prems(1) L1(2)] .
  have "\<And>p L. p \<in> set ps \<Longrightarrow> grows v L0 L \<Longrightarrow>
      \<exists>L'. extend k L (obj_name p) (Constant v) = Some (Inr L') \<and> grows v L L'
            \<and> Q (obj_name p) L'"
    using Cons.prems(2) by simp
  from Cons.IH[OF g1 this] obtain L' where
    L': "extend_each k L1 ps (Constant v) = Some (Inr L')" "grows v L1 L'"
        "\<forall>p \<in> set ps. Q (obj_name p) L'" by blast
  have "extend_each k L (p # ps) (Constant v) = Some (Inr L')" using L1(1) L'(1) by simp
  moreover have "grows v L L'" using grows_trans[OF L1(2) L'(2)] .
  moreover have "Q (obj_name p) L'" using mono[OF L'(2) L1(3)] .
  ultimately show ?case using L'(3) by simp
qed

lemma post_mono: "grows v L L' \<Longrightarrow> post v L0 m L \<Longrightarrow> post v L0 m L'"
  unfolding post_def using has_mono by blast

lemma extend_total:
  assumes acyc: "acyclic (edges L0)" and res: "resolved L0"
  shows "(\<exists>q. get_sort L0 n = Inr q) \<Longrightarrow>
    \<exists>k0. \<forall>k\<ge>k0. \<forall>L. grows v L0 L \<longrightarrow>
       (\<exists>L'. extend k L n (Constant v) = Some (Inr L') \<and> grows v L L' \<and> post v L0 n L')"
proof -
  have "finite (edges L0)" by (simp add: edges_def)
  then have wf: "wf ((edges L0)\<inverse>)" using acyc by (rule finite_acyclic_wf_converse)
  show "(\<exists>q. get_sort L0 n = Inr q) \<Longrightarrow>
    \<exists>k0. \<forall>k\<ge>k0. \<forall>L. grows v L0 L \<longrightarrow>
       (\<exists>L'. extend k L n (Constant v) = Some (Inr L') \<and> grows v L L' \<and> post v L0 n L')"
    using wf
  proof (induction n rule: wf_induct_rule)
    case (less n)
    let ?Ps = "edges L0 `` {n}"
    let ?G = "\<lambda>m k0. \<forall>k\<ge>k0. \<forall>L. grows v L0 L \<longrightarrow>
       (\<exists>L'. extend k L m (Constant v) = Some (Inr L') \<and> grows v L L' \<and> post v L0 m L')"
    have "\<forall>m \<in> ?Ps. \<exists>k0. ?G m k0"
    proof
      fix m assume m: "m \<in> ?Ps"
      then have "(m, n) \<in> (edges L0)\<inverse>" by simp
      moreover have "\<exists>q. get_sort L0 m = Inr q" using m resolved_edge[OF res] by blast
      ultimately show "\<exists>k0. ?G m k0" using less.IH by blast
    qed
    then obtain f where f: "\<forall>m \<in> ?Ps. ?G m (f m)" by metis
    have fin: "finite ?Ps" using \<open>finite (edges L0)\<close> by (meson finite_Image)
    define K where "K = (\<Sum>m \<in> ?Ps. f m)"
    have fK: "\<And>m. m \<in> ?Ps \<Longrightarrow> f m \<le> K"
      unfolding K_def using fin by (meson member_le_sum zero_le)
    from less.prems obtain q where q: "get_sort L0 n = Inr q" by blast
    have "?G n (Suc K)"
    proof (intro allI impI)
      fix k L assume k: "Suc K \<le> k" and g: "grows v L0 L"
      then obtain k' where k': "k = Suc k'" "K \<le> k'" by (cases k) auto
      from grows_get_sort[OF g q] obtain q' where q': "get_sort L n = Inr q'" "grow1 v q q'"
        by blast
      show "\<exists>L'. extend k L n (Constant v) = Some (Inr L') \<and> grows v L L' \<and> post v L0 n L'"
      proof (cases q')
        case (IntervalObj I)
        then have "q = IntervalObj I" using q'(2) by (auto simp: grow1_def)
        then have nd: "\<not> is_discrete L0 n" using q by (simp add: is_discrete_def)
        have "extend k L n (Constant v) = Some (Inr L)"
          using k'(1) q'(1) IntervalObj put_sort_same[OF q'(1)]
          by (simp add: Interval_extend_def)
        then show ?thesis using nd grows_refl by (auto simp: post_def)
      next
        case (SortObj S)
        let ?S1 = "S\<lparr> domain := insert v (domain S) \<rparr>"
        let ?L1 = "put_sort L (SortObj ?S1)"
        have gs: "get_sort L n = Inr (SortObj S)" using q'(1) SortObj by simp
        note pg = put_sort_grows[OF gs, of v]
        have g1: "grows v L0 ?L1" using grows_trans[OF g pg(1)] .
        have res1: "resolved ?L1" using grows_resolved[OF g1 res] .
        have e1: "edges ?L1 = edges L0" using grows_edges[OF g1] .
        have nS: "name S = n" using get_sort_name[OF gs] by simp
        obtain ps where ps: "parents ?L1 (SortObj ?S1) = Inr ps"
          "set ps = objs ?L1 (edges ?L1 `` {obj_name (SortObj ?S1)})"
          using parents_char[OF res1] by blast
        have psn: "obj_name ` set ps = ?Ps"
          using ps(2) objs_image_names[OF res1, of "{n}"] nS e1 by simp
        have stepp: "\<And>p M. p \<in> set ps \<Longrightarrow> grows v L0 M \<Longrightarrow>
            \<exists>L'. extend k' M (obj_name p) (Constant v) = Some (Inr L') \<and> grows v M L'
               \<and> post v L0 (obj_name p) L'"
        proof -
          fix p M assume p: "p \<in> set ps" and gM: "grows v L0 M"
          from p psn have m: "obj_name p \<in> ?Ps" by blast
          with fK k'(2) have "f (obj_name p) \<le> k'" using le_trans by blast
          with f m gM show "\<exists>L'. extend k' M (obj_name p) (Constant v) = Some (Inr L') \<and> grows v M L'
               \<and> post v L0 (obj_name p) L'" by blast
        qed
        have "\<exists>L'. extend_each k' ?L1 ps (Constant v) = Some (Inr L') \<and> grows v ?L1 L'
                \<and> (\<forall>p \<in> set ps. post v L0 (obj_name p) L')"
        proof (rule extend_each_total[where ?L0.0 = L0])
          show "\<And>p M. p \<in> set ps \<Longrightarrow> grows v L0 M \<Longrightarrow>
            \<exists>L'. extend k' M (obj_name p) (Constant v) = Some (Inr L') \<and> grows v M L'
               \<and> post v L0 (obj_name p) L'" by (rule stepp)
          show "\<And>m L L'. grows v L L' \<Longrightarrow> post v L0 m L \<Longrightarrow> post v L0 m L'"
            by (rule post_mono)
          show "grows v L0 ?L1" by (rule g1)
        qed
        then obtain L' where L': "extend_each k' ?L1 ps (Constant v) = Some (Inr L')"
          "grows v ?L1 L'" "\<forall>p \<in> set ps. post v L0 (obj_name p) L'" by blast
        have ex: "extend k L n (Constant v) = Some (Inr L')"
          using k'(1) gs ps(1) L'(1) by (simp add: Let_def)
        have gr: "grows v L L'" using grows_trans[OF pg(1) L'(2)] .
        have "post v L0 n L'"
          unfolding post_def
        proof (intro impI allI)
          fix A assume "(n, A) \<in> (discrete_edges L0)\<^sup>*"
          then show "has v L' A"
          proof (cases rule: converse_rtranclE)
            case base
            have "has v ?L1 n" using pg(2) by (auto simp: has_def)
            then show ?thesis using has_mono[OF L'(2)] base by simp
          next
            case (step m)
            from discrete_edge[OF step(1)] have m: "m \<in> ?Ps" "is_discrete L0 m" by auto
            then obtain p where p: "p \<in> set ps" "obj_name p = m" using psn by (metis imageE)
            with L'(3) have "post v L0 m L'" by blast
            with m(2) step(2) show ?thesis by (simp add: post_def)
          qed
        qed
        with ex gr show ?thesis by blast
      qed
    qed
    then show ?case by blast
  qed
qed

text \<open>
  C1 (amended). In a language whose edge set is acyclic (and whose edges name registered
  sorts), \<^verbatim>\<open>extend(c)\<close> on a discrete sort \<open>S\<close> returns once the recursion may go deep
  enough, and afterwards \<^verbatim>\<open>contains(c)\<close> is true for \<open>S\<close> and for every ancestor that is
  reached from \<open>S\<close> through discrete sorts only. \<^verbatim>\<open>Interval.extend\<close> does nothing, so
  every interval is left exactly as it was.
\<close>

theorem extend_propagates:
  assumes acyc: "acyclic (edges L)" and res: "resolved L" and disc: "is_discrete L S"
  shows "\<exists>k0. \<forall>k\<ge>k0. \<exists>L'. extend k L S (Constant v) = Some (Inr L')
           \<and> (\<forall>A. (S, A) \<in> (discrete_edges L)\<^sup>* \<longrightarrow>
                 (\<exists>q. get_sort L' A = Inr q \<and> contains sched L' q (Constant v) = Some (Inr True)))
           \<and> (\<forall>A I. get_sort L A = Inr (IntervalObj I) \<longrightarrow> get_sort L' A = Inr (IntervalObj I))"
proof -
  from disc have "\<exists>q. get_sort L S = Inr q" by (auto simp: is_discrete_iff)
  from extend_total[OF acyc res this, of v] obtain k0 where
    k0: "\<forall>k\<ge>k0. \<forall>M. grows v L M \<longrightarrow>
       (\<exists>L'. extend k M S (Constant v) = Some (Inr L') \<and> grows v M L' \<and> post v L S L')" by blast
  have "\<forall>k\<ge>k0. \<exists>L'. extend k L S (Constant v) = Some (Inr L')
           \<and> (\<forall>A. (S, A) \<in> (discrete_edges L)\<^sup>* \<longrightarrow>
                 (\<exists>q. get_sort L' A = Inr q \<and> contains sched L' q (Constant v) = Some (Inr True)))
           \<and> (\<forall>A I. get_sort L A = Inr (IntervalObj I) \<longrightarrow> get_sort L' A = Inr (IntervalObj I))"
  proof (intro allI impI)
    fix k assume "k0 \<le> k"
    with k0 grows_refl[of v L] obtain L' where
      L': "extend k L S (Constant v) = Some (Inr L')" "grows v L L'" "post v L S L'" by blast
    have a: "\<forall>A. (S, A) \<in> (discrete_edges L)\<^sup>* \<longrightarrow>
                 (\<exists>q. get_sort L' A = Inr q \<and> contains sched L' q (Constant v) = Some (Inr True))"
    proof (intro allI impI)
      fix A assume "(S, A) \<in> (discrete_edges L)\<^sup>*"
      with L'(3) disc have "has v L' A" by (simp add: post_def)
      then obtain T where "get_sort L' A = Inr (SortObj T)" "v \<in> domain T"
        by (auto simp: has_def)
      then show "\<exists>q. get_sort L' A = Inr q \<and> contains sched L' q (Constant v) = Some (Inr True)"
        by simp
    qed
    have b: "\<forall>A I. get_sort L A = Inr (IntervalObj I) \<longrightarrow> get_sort L' A = Inr (IntervalObj I)"
    proof (intro allI impI)
      fix A I assume "get_sort L A = Inr (IntervalObj I)"
      from grows_get_sort[OF L'(2) this] show "get_sort L' A = Inr (IntervalObj I)"
        by (auto simp: grow1_def)
    qed
    from L'(1) a b show "\<exists>L'. extend k L S (Constant v) = Some (Inr L')
           \<and> (\<forall>A. (S, A) \<in> (discrete_edges L)\<^sup>* \<longrightarrow>
                 (\<exists>q. get_sort L' A = Inr q \<and> contains sched L' q (Constant v) = Some (Inr True)))
           \<and> (\<forall>A I. get_sort L A = Inr (IntervalObj I) \<longrightarrow> get_sort L' A = Inr (IntervalObj I))"
      by blast
  qed
  then show ?thesis by blast
qed

theorem extend_propagates_witness:
  "acyclic (edges blocks_language) \<and> resolved blocks_language
   \<and> is_discrete blocks_language ''block''
   \<and> (''block'', ''object'') \<in> (discrete_edges blocks_language)\<^sup>*
   \<and> (\<exists>k0. \<forall>k\<ge>k0. \<exists>L'.
         extend k blocks_language ''block'' (Constant (StrV ''a'')) = Some (Inr L')
         \<and> (\<exists>q. get_sort L' ''object'' = Inr q
               \<and> contains pop_first L' q (Constant (StrV ''a'')) = Some (Inr True)))"
proof -
  have a: "acyclic (edges blocks_language)"
    by (simp add: edges_def fixture_defs graph_eval)
  have r: "resolved blocks_language"
    by (simp add: resolved_def fixture_defs)
  have d: "is_discrete blocks_language ''block''"
    by (simp add: is_discrete_def get_sort_def fixture_defs)
  have e: "(''block'', ''object'') \<in> (discrete_edges blocks_language)\<^sup>*"
    by (simp add: discrete_edges_def is_discrete_def get_sort_def fixture_defs graph_eval)
  from extend_propagates [OF a r d, of "StrV ''a''" pop_first] e
  have "\<exists>k0. \<forall>k\<ge>k0. \<exists>L'.
         extend k blocks_language ''block'' (Constant (StrV ''a'')) = Some (Inr L')
         \<and> (\<exists>q. get_sort L' ''object'' = Inr q
               \<and> contains pop_first L' q (Constant (StrV ''a'')) = Some (Inr True))"
    by blast
  with a r d e show ?thesis by simp
qed

text \<open>
  The claim C1 as stated fails: with \<open>block\<close> below the interval \<open>small\<close> below
  \<open>object\<close>, both \<open>small\<close> and \<open>object\<close> are in the inclusion closure of \<open>block\<close>,
  but after \<^verbatim>\<open>block.extend(a)\<close> neither contains \<open>a\<close>: the propagation ends at the
  interval.
\<close>

theorem extend_propagates_counterexample:
  "is_discrete mixed_language ''block''
   \<and> extend 3 mixed_language ''block'' (Constant (StrV ''a'')) = Some (Inr mixed_language_extended)
   \<and> inclusion_closure pop_first mixed_language (SortObj block_sort)
       = Some (Inr [SortObj block_sort, IntervalObj small_interval, SortObj object_sort])
   \<and> get_sort mixed_language_extended ''object'' = Inr (SortObj object_sort)
   \<and> contains pop_first mixed_language_extended (SortObj object_sort) (Constant (StrV ''a''))
       = Some (Inr False)
   \<and> get_sort mixed_language_extended ''small'' = Inr (IntervalObj small_interval)
   \<and> contains pop_first mixed_language_extended (IntervalObj small_interval)
        (Constant (StrV ''a'')) = Some (Inl TypeError)"
  by (simp add: fixture_defs loop_eval interval_eval is_discrete_def put_sort_def numeral_3_eq_3
      Interval_extend_def)

text \<open>
  C9. \<^verbatim>\<open>Interval.extend(x)\<close> is a no-op for every interval and every argument: the
  bounds and the domain are unchanged, and calling it on a registered interval returns
  with the whole language unchanged, so no parent is touched and nothing is raised.
\<close>

theorem Interval_extend_noop:
  "Interval_extend I x = I
   \<and> lower_bound (Interval_extend I x) = lower_bound I
   \<and> upper_bound (Interval_extend I x) = upper_bound I
   \<and> domain (Interval_extend I x) = domain I
   \<and> (get_sort L n = Inr (IntervalObj I) \<longrightarrow> extend (Suc k) L n x = Some (Inr L))"
  using put_sort_same[of L n "IntervalObj I"] by (simp add: Interval_extend_def)

theorem Interval_extend_noop_witness:
  "get_sort mixed_language ''small'' = Inr (IntervalObj small_interval)
   \<and> extend (Suc 0) mixed_language ''small'' (Constant (StrV ''a'')) = Some (Inr mixed_language)"
proof -
  have g: "get_sort mixed_language ''small'' = Inr (IntervalObj small_interval)"
    by (simp add: get_sort_def fixture_defs)
  show ?thesis
    using g Interval_extend_noop [of small_interval "Constant (StrV ''a'')" mixed_language
        "''small''" 0]
    by (simp only: simp_thms)
qed


section \<open>The bounds of an interval\<close>

text \<open>
  C8 (amended). The constructor and \<^verbatim>\<open>set_bounds\<close> store the bounds they are given and
  check nothing: after either, the invariant holds exactly when the two arguments are
  both unset, or both set with the lower one not above the upper one.
  \<^verbatim>\<open>Interval.extend\<close> preserves the invariant.
\<close>

theorem bounds_unchecked:
  "bounds_invariant (Interval_init nm encode_fn lb ub) = valid_bounds lb ub
   \<and> bounds_invariant (set_bounds I lb ub) = valid_bounds lb ub
   \<and> bounds_invariant (Interval_extend I x) = bounds_invariant I"
  by (simp add: bounds_invariant_def Interval_init_def set_bounds_def Interval_extend_def)

text \<open>
  The claim C8 as stated fails: \<^verbatim>\<open>set_bounds\<close> and the constructor accept bounds in the
  wrong order and a single bound.
\<close>

theorem bounds_unchecked_counterexample:
  "bounds_invariant small_interval
   \<and> \<not> bounds_invariant (set_bounds small_interval (Some 10) (Some 0))
   \<and> \<not> bounds_invariant (set_bounds small_interval None (Some 3))
   \<and> \<not> bounds_invariant (Interval_init ''odd'' int_encode_fn (Some 10) (Some 0))
   \<and> \<not> bounds_invariant (Interval_init ''half'' int_encode_fn (Some 0) None)"
  by (simp add: bounds_invariant_def valid_bounds_def fixture_defs set_bounds_def)


section \<open>Interval.cast\<close>

text \<open>
  C6 (amended). If \<open>x\<close> is not a string that names an attribute of the interval,
  \<^verbatim>\<open>cast(x)\<close> succeeds with \<open>y\<close>, and the encoder maps \<open>y\<close> to itself (as
  \<^verbatim>\<open>int_encode_fn\<close> does on every integer), then \<^verbatim>\<open>cast(y)\<close> succeeds with \<open>y\<close>.
\<close>

theorem cast_idempotent:
  assumes "\<not> names_attribute I x" and "Interval_cast I x = Inr (IntV y)"
    and "encode I (Raw (IntV y)) = Inr y"
  shows "Interval_cast I (Raw (IntV y)) = Inr (IntV y)"
proof -
  from assms(1) have na: "(case x of Raw (StrV a) \<Rightarrow> Interval_getattr I a | _ \<Rightarrow> None) = None"
    by (auto simp: names_attribute_def split: pyval.splits raw.splits)
  with assms(2) have "is_within_bounds I y = Inr True"
    by (auto simp: Interval_cast_def split: sum.splits if_splits)
  with assms(3) show ?thesis by (simp add: Interval_cast_def)
qed

theorem cast_idempotent_witness:
  "\<not> names_attribute build_the_naturals (Raw (StrV '' 42 ''))
   \<and> Interval_cast build_the_naturals (Raw (StrV '' 42 '')) = Inr (IntV 42)
   \<and> encode build_the_naturals (Raw (IntV 42)) = Inr 42
   \<and> Interval_cast build_the_naturals (Raw (IntV 42)) = Inr (IntV 42)"
proof -
  have n: "\<not> names_attribute build_the_naturals (Raw (StrV '' 42 ''))"
    by (simp add: names_attribute_def interval_eval)
  have c: "Interval_cast build_the_naturals (Raw (StrV '' 42 '')) = Inr (IntV 42)"
    by (simp add: fixture_defs interval_eval int_eval)
  have e: "encode build_the_naturals (Raw (IntV 42)) = Inr 42"
    by (simp add: fixture_defs)
  show ?thesis using n c e cast_idempotent [OF n c e] by simp
qed

text \<open>
  The claim C6 as stated fails. On the Natural interval the string \<^verbatim>\<open>"name"\<close> is cast
  to the attribute \<^verbatim>\<open>"Natural"\<close>, which cannot be cast again; and an encoder need not
  map its own result to itself.
\<close>

theorem cast_idempotent_counterexample:
  "lower_bound build_the_naturals = Some 0 \<and> upper_bound build_the_naturals = Some (2 ^ 32 - 1)
   \<and> Interval_cast build_the_naturals (Raw (StrV ''name'')) = Inr (StrV ''Natural'')
   \<and> Interval_cast build_the_naturals (Raw (StrV ''Natural'')) = Inl ValueError
   \<and> Interval_cast shifted_interval (Raw (IntV 1)) = Inr (IntV 2)
   \<and> Interval_cast shifted_interval (Raw (IntV 2)) = Inr (IntV 3)"
  by (simp add: fixture_defs interval_eval int_eval)

end
